theory Spec2Isabelle
  imports Main "HOL-Library.Word" "HOL-Library.Multiset"
begin

section \<open>Data model of the sweeper\<close>

text \<open>
  The sweeper (\<^verbatim>\<open>src/sweeper.cc\<close>) turns a problem, a vector of buffers with lifespans
  and gaps, into cross sections, partitions and per-buffer data. Its headers
  (\<^verbatim>\<open>sweeper.h\<close>, \<^verbatim>\<open>minimalloc.h\<close>) declare the plain structs used below: an interval
  is a pair of bounds, time values and offsets are 64-bit integers, section indices are
  \<^verbatim>\<open>int\<close>. Buffer indices only ever range over \<^verbatim>\<open>0 .. num_buffers - 1\<close> and are natural
  numbers here; the other integers are unbounded, with the sentinel \<open>-1\<close> of the source kept
  as it is. Machine arithmetic is written out where it decides the result, in
  \<^verbatim>\<open>CalculateCuts\<close>: the size of the cut vector is a 64-bit word, and an \<^verbatim>\<open>int\<close> that would
  leave its 32 bits is undefined behaviour. In \<^verbatim>\<open>Sweep\<close> the number of sections is cast to
  \<^verbatim>\<open>int\<close>, which is exact below \<open>2^31\<close> sections and is taken as exact.
\<close>

datatype 'a Interval = Interval (lower: 'a) (upper: 'a)

type_synonym Lifespan = "int Interval"
type_synonym Window = "int Interval"
type_synonym SectionRange = "int Interval"
type_synonym BufferIdx = nat
type_synonym TimeValue = int
type_synonym SectionIdx = int
type_synonym Section = "BufferIdx list"

record Gap =
  gap_lifespan :: Lifespan
  gap_window :: "Window option"

record Buffer =
  lifespan :: Lifespan
  buffer_size :: int
  gaps :: "Gap list"

record Problem =
  buffers :: "Buffer list"

datatype PointType = kRightGap | kRight | kLeft | kLeftGap

record Point =
  buffer_idx :: BufferIdx
  time_value :: TimeValue
  point_type :: PointType
  window :: "Window option"

record SectionSpan =
  section_range :: SectionRange
  span_window :: Window

record Partition =
  buffer_idxs :: "BufferIdx list"
  partition_range :: SectionRange

datatype Overlap = Overlap (overlap_idx: BufferIdx) (effective_size: int)

record BufferData =
  section_spans :: "SectionSpan list"
  overlaps :: "Overlap list"

record SweepResult =
  sections :: "Section list"
  partitions :: "Partition list"
  buffer_data :: "BufferData list"

text \<open>
  The local variables of \<^verbatim>\<open>Sweep\<close> extend the result under construction.
\<close>

record SweepState = SweepResult +
  actives :: Section
  alive :: Section
  last_section_time :: TimeValue
  last_section_idx :: SectionIdx
  buffer_idx_to_section_start :: "SectionIdx list"
  buffer_idx_to_window :: "Window list"

section \<open>Ordered sets\<close>

text \<open>
  \<^verbatim>\<open>absl::btree_set\<close> keeps its elements in the order of the element type's \<^verbatim>\<open>operator<\<close>
  and holds no two equivalent elements. It is a list in that order; \<open>btree_insert\<close> leaves
  the set as it is when an equivalent element is present, \<open>btree_erase\<close> removes the
  elements equivalent to the key.
\<close>

fun btree_insert :: "('a \<Rightarrow> 'a \<Rightarrow> bool) \<Rightarrow> 'a \<Rightarrow> 'a list \<Rightarrow> 'a list" where
  "btree_insert lt x [] = [x]"
| "btree_insert lt x (y # ys) =
     (if lt x y then x # y # ys
      else if lt y x then y # btree_insert lt x ys
      else y # ys)"

definition btree_erase :: "('a \<Rightarrow> 'a \<Rightarrow> bool) \<Rightarrow> 'a \<Rightarrow> 'a list \<Rightarrow> 'a list" where
  "btree_erase lt x ys = filter (\<lambda>y. lt x y \<or> lt y x) ys"

definition idx_less :: "BufferIdx \<Rightarrow> BufferIdx \<Rightarrow> bool" where
  "idx_less a b \<longleftrightarrow> a < b"

text \<open>\<^verbatim>\<open>Overlap::operator<\<close>: by partner index, then by effective size.\<close>

definition overlap_less :: "Overlap \<Rightarrow> Overlap \<Rightarrow> bool" where
  "overlap_less a x =
     (if overlap_idx a \<noteq> overlap_idx x then overlap_idx a < overlap_idx x
      else effective_size a < effective_size x)"

section \<open>Events\<close>

text \<open>The enumerators of \<^verbatim>\<open>PointType\<close> compare by their position in the declaration.\<close>

fun point_type_rank :: "PointType \<Rightarrow> nat" where
  "point_type_rank kRightGap = 0"
| "point_type_rank kRight = 1"
| "point_type_rank kLeft = 2"
| "point_type_rank kLeftGap = 3"

text \<open>\<^verbatim>\<open>Point::operator<\<close>: by time, then by point type, then by buffer index.\<close>

definition point_less :: "Point \<Rightarrow> Point \<Rightarrow> bool" where
  "point_less p x =
     (if time_value p \<noteq> time_value x then time_value p < time_value x
      else if point_type p \<noteq> point_type x
        then point_type_rank (point_type p) < point_type_rank (point_type x)
      else buffer_idx p < buffer_idx x)"

text \<open>
  The first loop of \<^verbatim>\<open>Sweep\<close>: per buffer a left point, two points per gap (the gap's lower
  end is a \<open>kRightGap\<close>, its upper end a \<open>kLeftGap\<close>, both carrying the gap's window) and a
  right point.
\<close>

definition gap_points :: "BufferIdx \<Rightarrow> Gap \<Rightarrow> Point list" where
  "gap_points i g =
     [\<lparr>buffer_idx = i, time_value = lower (gap_lifespan g), point_type = kRightGap,
        window = gap_window g\<rparr>,
      \<lparr>buffer_idx = i, time_value = upper (gap_lifespan g), point_type = kLeftGap,
        window = gap_window g\<rparr>]"

definition buffer_points :: "BufferIdx \<Rightarrow> Buffer \<Rightarrow> Point list" where
  "buffer_points i b =
     \<lparr>buffer_idx = i, time_value = lower (lifespan b), point_type = kLeft, window = None\<rparr>
       # concat (map (gap_points i) (gaps b))
       @ [\<lparr>buffer_idx = i, time_value = upper (lifespan b), point_type = kRight,
            window = None\<rparr>]"

definition make_points :: "Problem \<Rightarrow> Point list" where
  "make_points problem =
     concat (map (\<lambda>i. buffer_points i (buffers problem ! i)) [0..<length (buffers problem)])"

text \<open>
  \<^verbatim>\<open>std::sort\<close> with \<^verbatim>\<open>Point::operator<\<close>, as an insertion sort. The order in which
  \<^verbatim>\<open>std::sort\<close> leaves two points that compare equivalent is not specified; the model
  keeps them in their order of generation.
\<close>

fun insert_point :: "Point \<Rightarrow> Point list \<Rightarrow> Point list" where
  "insert_point p [] = [p]"
| "insert_point p (q # qs) =
     (if point_less q p then q # insert_point p qs
      else if point_less p q then p # q # qs
      else p # q # qs)"

definition sort_points :: "Point list \<Rightarrow> Point list" where
  "sort_points ps = foldr insert_point ps []"

definition sweep_points :: "Problem \<Rightarrow> Point list" where
  "sweep_points problem = sort_points (make_points problem)"

section \<open>The sweep\<close>

definition isLeft :: "Point \<Rightarrow> bool" where
  "isLeft p \<longleftrightarrow> point_type p = kLeft"

definition isRight :: "Point \<Rightarrow> bool" where
  "isRight p \<longleftrightarrow> point_type p = kRight"

definition isEmptyLeftGap :: "Point \<Rightarrow> bool" where
  "isEmptyLeftGap p \<longleftrightarrow> point_type p = kLeftGap \<and> window p = None"

definition isEmptyRightGap :: "Point \<Rightarrow> bool" where
  "isEmptyRightGap p \<longleftrightarrow> point_type p = kRightGap \<and> window p = None"

definition isWindowedLeftGap :: "Point \<Rightarrow> bool" where
  "isWindowedLeftGap p \<longleftrightarrow> point_type p = kLeftGap \<and> window p \<noteq> None"

definition isWindowedRightGap :: "Point \<Rightarrow> bool" where
  "isWindowedRightGap p \<longleftrightarrow> point_type p = kRightGap \<and> window p \<noteq> None"

text \<open>
  The body of the main loop reads and writes vectors at the point's buffer index and at the
  indices held in \<open>actives\<close>. All of them have \<open>num_buffers\<close> elements in \<^verbatim>\<open>Sweep\<close>; an
  index outside a vector is undefined behaviour in the source and \<open>None\<close> here.
\<close>

definition in_bounds :: "Problem \<Rightarrow> Point \<Rightarrow> 'a SweepState_scheme \<Rightarrow> bool" where
  "in_bounds problem point s \<longleftrightarrow>
     buffer_idx point < length (buffers problem) \<and>
     length (buffer_data s) = length (buffers problem) \<and>
     length (buffer_idx_to_section_start s) = length (buffers problem) \<and>
     length (buffer_idx_to_window s) = length (buffers problem) \<and>
     list_all (\<lambda>a. a < length (buffers problem)) (actives s)"

text \<open>Line 127: the first point's time replaces the sentinel.\<close>

definition init_section_time :: "Point \<Rightarrow> 'a SweepState_scheme \<Rightarrow> 'a SweepState_scheme" where
  "init_section_time point s =
     (if last_section_time s = - 1 then s\<lparr>last_section_time := time_value point\<rparr> else s)"

text \<open>Lines 129-131.\<close>

definition reset_window ::
  "Problem \<Rightarrow> Point \<Rightarrow> 'a SweepState_scheme \<Rightarrow> 'a SweepState_scheme" where
  "reset_window problem point s =
     (if isWindowedRightGap point
      then s\<lparr>buffer_idx_to_window := (buffer_idx_to_window s)
               [buffer_idx point :=
                  Interval 0 (buffer_size (buffers problem ! buffer_idx point))]\<rparr>
      else s)"

text \<open>Lines 132-138: a new cross section, when the time has moved on.\<close>

definition flush_section :: "Point \<Rightarrow> 'a SweepState_scheme \<Rightarrow> 'a SweepState_scheme" where
  "flush_section point s =
     (if (isRight point \<or> isEmptyRightGap point \<or> isWindowedRightGap point
            \<or> isWindowedLeftGap point)
         \<and> last_section_time s < time_value point
      then s\<lparr>last_section_time := time_value point, sections := sections s @ [actives s]\<rparr>
      else s)"

text \<open>Lines 139-144.\<close>

definition erase_buffer :: "Point \<Rightarrow> 'a SweepState_scheme \<Rightarrow> 'a SweepState_scheme" where
  "erase_buffer point s =
     (let s1 = (if isRight point \<or> isEmptyRightGap point
                then s\<lparr>actives := btree_erase idx_less (buffer_idx point) (actives s)\<rparr>
                else s)
      in if isRight point
         then s1\<lparr>alive := btree_erase idx_less (buffer_idx point) (alive s1)\<rparr>
         else s1)"

text \<open>
  Lines 145-162: the open span of the buffer is closed, and with it the partition when no
  buffer is alive. \<^verbatim>\<open>partitions.back()\<close> of an empty vector is undefined behaviour.
\<close>

definition set_back_range :: "SectionRange \<Rightarrow> Partition list \<Rightarrow> Partition list" where
  "set_back_range r ps = ps[length ps - 1 := (last ps)\<lparr>partition_range := r\<rparr>]"

definition close_span :: "Point \<Rightarrow> 'a SweepState_scheme \<Rightarrow> 'a SweepState_scheme option" where
  "close_span point s =
     (if (isRight point \<or> isEmptyRightGap point \<or> isWindowedRightGap point
            \<or> isWindowedLeftGap point)
         \<and> buffer_idx_to_section_start s ! buffer_idx point \<noteq> - 1
      then
        let section_span =
              \<lparr>section_range = Interval (buffer_idx_to_section_start s ! buffer_idx point)
                                         (int (length (sections s))),
               span_window = buffer_idx_to_window s ! buffer_idx point\<rparr>;
            s1 = s\<lparr>buffer_data := (buffer_data s)
                      [buffer_idx point := (buffer_data s ! buffer_idx point)
                         \<lparr>section_spans :=
                            section_spans (buffer_data s ! buffer_idx point) @ [section_span]\<rparr>]\<rparr>
        in if alive s1 = []
           then (if partitions s1 = [] then None
                 else Some (s1\<lparr>partitions :=
                                  set_back_range
                                    (Interval (last_section_idx s1) (int (length (sections s1))))
                                    (partitions s1),
                               last_section_idx := int (length (sections s1)),
                               buffer_idx_to_section_start :=
                                  (buffer_idx_to_section_start s1)[buffer_idx point := - 1]\<rparr>))
           else Some (s1\<lparr>buffer_idx_to_section_start :=
                            (buffer_idx_to_section_start s1)[buffer_idx point := - 1]\<rparr>)
      else Some s)"

text \<open>Lines 163-165.\<close>

definition set_gap_window :: "Point \<Rightarrow> 'a SweepState_scheme \<Rightarrow> 'a SweepState_scheme" where
  "set_gap_window point s =
     (if isWindowedLeftGap point
      then s\<lparr>buffer_idx_to_window :=
               (buffer_idx_to_window s)[buffer_idx point := the (window point)]\<rparr>
      else s)"

text \<open>
  Lines 166-169. A value-initialised \<^verbatim>\<open>Partition\<close> has no buffers and the interval
  \<^verbatim>\<open>{0, 0}\<close> as its section range.
\<close>

definition open_partition :: "Point \<Rightarrow> 'a SweepState_scheme \<Rightarrow> 'a SweepState_scheme" where
  "open_partition point s =
     (if (isLeft point \<or> isEmptyLeftGap point) \<and> alive s = []
      then s\<lparr>partitions :=
               partitions s @ [\<lparr>buffer_idxs = [], partition_range = Interval 0 0\<rparr>]\<rparr>
      else s)"

text \<open>Lines 170-173; again \<^verbatim>\<open>partitions.back()\<close>.\<close>

definition push_back_idx :: "BufferIdx \<Rightarrow> Partition list \<Rightarrow> Partition list" where
  "push_back_idx i ps = ps[length ps - 1 := (last ps)\<lparr>buffer_idxs := buffer_idxs (last ps) @ [i]\<rparr>]"

definition join_partition :: "Point \<Rightarrow> 'a SweepState_scheme \<Rightarrow> 'a SweepState_scheme option" where
  "join_partition point s =
     (if isLeft point
      then (if partitions s = [] then None
            else Some (s\<lparr>partitions := push_back_idx (buffer_idx point) (partitions s)\<rparr>))
      else Some s)"

text \<open>
  Lines 174-188. \<open>effective_size\<close> is the buffers' own method, declared outside the
  sweeper: it is a parameter \<open>es\<close> of the model, of which nothing is assumed.
\<close>

definition insert_overlap :: "BufferIdx \<Rightarrow> Overlap \<Rightarrow> BufferData list \<Rightarrow> BufferData list" where
  "insert_overlap i ov bd =
     bd[i := (bd ! i)\<lparr>overlaps := btree_insert overlap_less ov (overlaps (bd ! i))\<rparr>]"

definition pair_overlaps ::
  "(Buffer \<Rightarrow> Buffer \<Rightarrow> int option) \<Rightarrow> Problem \<Rightarrow> BufferIdx \<Rightarrow> BufferIdx
     \<Rightarrow> BufferData list \<Rightarrow> BufferData list" where
  "pair_overlaps es problem b active_idx bd =
     (let bd1 = (case es (buffers problem ! active_idx) (buffers problem ! b) of
                   None \<Rightarrow> bd
                 | Some sz \<Rightarrow> insert_overlap active_idx (Overlap b sz) bd)
      in case es (buffers problem ! b) (buffers problem ! active_idx) of
           None \<Rightarrow> bd1
         | Some sz \<Rightarrow> insert_overlap b (Overlap active_idx sz) bd1)"

fun overlaps_loop ::
  "(Buffer \<Rightarrow> Buffer \<Rightarrow> int option) \<Rightarrow> Problem \<Rightarrow> BufferIdx \<Rightarrow> BufferIdx list
     \<Rightarrow> BufferData list \<Rightarrow> BufferData list" where
  "overlaps_loop es problem b [] bd = bd"
| "overlaps_loop es problem b (a # as) bd =
     overlaps_loop es problem b as (pair_overlaps es problem b a bd)"

definition record_overlaps ::
  "(Buffer \<Rightarrow> Buffer \<Rightarrow> int option) \<Rightarrow> Problem \<Rightarrow> Point
     \<Rightarrow> 'a SweepState_scheme \<Rightarrow> 'a SweepState_scheme" where
  "record_overlaps es problem point s =
     (if isLeft point \<or> isEmptyLeftGap point
      then s\<lparr>buffer_data :=
               overlaps_loop es problem (buffer_idx point) (actives s) (buffer_data s)\<rparr>
      else s)"

text \<open>Lines 189-195.\<close>

definition insert_buffer :: "Point \<Rightarrow> 'a SweepState_scheme \<Rightarrow> 'a SweepState_scheme" where
  "insert_buffer point s =
     (let s1 = (if isLeft point \<or> isEmptyLeftGap point
                then s\<lparr>actives := btree_insert idx_less (buffer_idx point) (actives s)\<rparr>
                else s)
      in if isLeft point
         then s1\<lparr>alive := btree_insert idx_less (buffer_idx point) (alive s1)\<rparr>
         else s1)"

text \<open>Lines 196-198.\<close>

definition open_span :: "Point \<Rightarrow> 'a SweepState_scheme \<Rightarrow> 'a SweepState_scheme" where
  "open_span point s =
     (if isLeft point \<or> isEmptyLeftGap point \<or> isWindowedLeftGap point
           \<or> isWindowedRightGap point
      then s\<lparr>buffer_idx_to_section_start :=
               (buffer_idx_to_section_start s)
                 [buffer_idx point := int (length (sections s))]\<rparr>
      else s)"

text \<open>One iteration of the main loop (lines 115-199).\<close>

definition process_point ::
  "(Buffer \<Rightarrow> Buffer \<Rightarrow> int option) \<Rightarrow> Problem \<Rightarrow> Point
     \<Rightarrow> 'a SweepState_scheme \<Rightarrow> 'a SweepState_scheme option" where
  "process_point es problem point s =
     (if in_bounds problem point s
      then
        (case close_span point
                (erase_buffer point
                  (flush_section point
                    (reset_window problem point (init_section_time point s)))) of
           None \<Rightarrow> None
         | Some s5 \<Rightarrow>
            (case join_partition point (open_partition point (set_gap_window point s5)) of
               None \<Rightarrow> None
             | Some s8 \<Rightarrow>
                 Some (open_span point
                        (insert_buffer point (record_overlaps es problem point s8)))))
      else None)"

fun sweep_loop ::
  "(Buffer \<Rightarrow> Buffer \<Rightarrow> int option) \<Rightarrow> Problem \<Rightarrow> Point list
     \<Rightarrow> 'a SweepState_scheme \<Rightarrow> 'a SweepState_scheme option" where
  "sweep_loop es problem [] s = Some s"
| "sweep_loop es problem (point # points) s =
     (case process_point es problem point s of
        None \<Rightarrow> None
      | Some s' \<Rightarrow> sweep_loop es problem points s')"

definition initial_state :: "Problem \<Rightarrow> SweepState" where
  "initial_state problem =
     \<lparr>sections = [], partitions = [],
      buffer_data = replicate (length (buffers problem)) \<lparr>section_spans = [], overlaps = []\<rparr>,
      actives = [], alive = [], last_section_time = - 1, last_section_idx = 0,
      buffer_idx_to_section_start = replicate (length (buffers problem)) (- 1),
      buffer_idx_to_window = map (\<lambda>b. Interval 0 (buffer_size b)) (buffers problem)\<rparr>"

definition result_of :: "SweepState \<Rightarrow> SweepResult" where
  "result_of s =
     \<lparr>sections = sections s, partitions = partitions s, buffer_data = buffer_data s\<rparr>"

definition Sweep :: "(Buffer \<Rightarrow> Buffer \<Rightarrow> int option) \<Rightarrow> Problem \<Rightarrow> SweepResult option" where
  "Sweep es problem =
     map_option result_of (sweep_loop es problem (sweep_points problem) (initial_state problem))"

section \<open>Cuts\<close>

text \<open>
  Section indices and cut counts are \<^verbatim>\<open>int\<close>, 32 bits wide. An addition whose result is
  above \<^verbatim>\<open>INT_MAX\<close> is a signed overflow, which is undefined behaviour.
\<close>

definition int_max :: int where
  "int_max = 2147483647"

definition int_min :: int where
  "int_min = - 2147483648"

definition is_int :: "int \<Rightarrow> bool" where
  "is_int x \<longleftrightarrow> int_min \<le> x \<and> x \<le> int_max"

text \<open>
  The inner loop of \<^verbatim>\<open>CalculateCuts\<close> (lines 211-214), from \<open>s_idx\<close> while
  \<open>s_idx + 1 < upper\<close>. The condition adds 1 to \<open>s_idx\<close> and the body adds 1 to
  \<^verbatim>\<open>cuts[s_idx]\<close>: either overflow is undefined behaviour, and so is \<^verbatim>\<open>cuts[s_idx]\<close> outside
  the vector.
\<close>

function count_cuts :: "SectionIdx \<Rightarrow> SectionIdx \<Rightarrow> int list \<Rightarrow> int list option" where
  "count_cuts s_idx up cuts =
     (if int_max < s_idx + 1 then None
      else if s_idx + 1 < up
      then (if 0 \<le> s_idx \<and> nat s_idx < length cuts
            then (if int_max < cuts ! nat s_idx + 1 then None
                  else count_cuts (s_idx + 1) up (cuts[nat s_idx := cuts ! nat s_idx + 1]))
            else None)
      else Some cuts)"
  by pat_completeness auto
termination
  by (relation "measure (\<lambda>(s_idx, up, cuts). nat (up - s_idx))") auto

declare count_cuts.simps [simp del]

text \<open>
  The outer loop (lines 209-215); \<^verbatim>\<open>front()\<close> and \<^verbatim>\<open>back()\<close> of an empty vector of spans
  are undefined behaviour.
\<close>

fun cuts_loop :: "BufferData list \<Rightarrow> int list \<Rightarrow> int list option" where
  "cuts_loop [] cuts = Some cuts"
| "cuts_loop (bd # bds) cuts =
     (if section_spans bd = [] then None
      else (case count_cuts (lower (section_range (hd (section_spans bd))))
                            (upper (section_range (last (section_spans bd)))) cuts of
              None \<Rightarrow> None
            | Some cuts' \<Rightarrow> cuts_loop bds cuts'))"

text \<open>
  Line 208: \<^verbatim>\<open>sections.size() - 1\<close> is computed in \<^verbatim>\<open>size_t\<close>, 64 bits wide, and is the
  number of elements asked of the new vector.
\<close>

definition cuts_size :: "'a SweepResult_scheme \<Rightarrow> 64 word" where
  "cuts_size r = word_of_nat (length (sections r)) - 1"

text \<open>
  The constructor \<^verbatim>\<open>std::vector<CutCount>(n)\<close> throws \<^verbatim>\<open>std::length_error\<close> when \<open>n\<close>
  exceeds \<^verbatim>\<open>max_size()\<close>, and otherwise gives \<open>n\<close> counters equal to 0. With 64-bit pointers
  and counters of 4 bytes \<^verbatim>\<open>max_size()\<close> is \<^verbatim>\<open>PTRDIFF_MAX / 4\<close> \<open>= 2^61 - 1\<close>; no standard
  library has it at \<open>2^64 - 1\<close>. That the memory of a vector within \<^verbatim>\<open>max_size()\<close> cannot
  be had (\<^verbatim>\<open>std::bad_alloc\<close>) is left out.
\<close>

datatype exception = length_error

definition vector_max_size :: nat where
  "vector_max_size = 2305843009213693951"

definition new_vector :: "64 word \<Rightarrow> exception + int list" where
  "new_vector n =
     (if vector_max_size < unat n then Inl length_error else Inr (replicate (unat n) 0))"

text \<open>
  \<^verbatim>\<open>CalculateCuts\<close> (lines 207-217). The value is the vector returned; it is \<open>None\<close> when
  none is, because the constructor throws or the behaviour of the loops is undefined.
\<close>

definition CalculateCuts :: "'a SweepResult_scheme \<Rightarrow> int list option" where
  "CalculateCuts r =
     (case new_vector (cuts_size r) of
        Inl e \<Rightarrow> None
      | Inr cuts \<Rightarrow> cuts_loop (buffer_data r) cuts)"

section \<open>The state during the sweep\<close>

text \<open>The state of \<^verbatim>\<open>Sweep\<close> after the first \<open>k\<close> points of the sorted sequence.\<close>

definition state_after ::
  "(Buffer \<Rightarrow> Buffer \<Rightarrow> int option) \<Rightarrow> Problem \<Rightarrow> nat \<Rightarrow> SweepState option" where
  "state_after es problem k =
     sweep_loop es problem (take k (sweep_points problem)) (initial_state problem)"

section \<open>The order of events in the words of the specification\<close>

text \<open>
  The specification names four kinds of events and their tiers: gap start, true end, true
  start, gap end, in this order, whatever the window of a gap event. The points generated
  for a gap (\<open>gap_points\<close>) are a \<open>kRightGap\<close> at the gap's start and a \<open>kLeftGap\<close> at its
  end; a buffer's \<open>kLeft\<close> is its true start and its \<open>kRight\<close> its true end.
\<close>

datatype EventKind = GapStart | TrueEnd | TrueStart | GapEnd

fun event_kind :: "PointType \<Rightarrow> EventKind" where
  "event_kind kRightGap = GapStart"
| "event_kind kRight = TrueEnd"
| "event_kind kLeft = TrueStart"
| "event_kind kLeftGap = GapEnd"

fun tier :: "EventKind \<Rightarrow> nat" where
  "tier GapStart = 0"
| "tier TrueEnd = 1"
| "tier TrueStart = 2"
| "tier GapEnd = 3"

definition event_tier :: "Point \<Rightarrow> nat" where
  "event_tier p = tier (event_kind (point_type p))"

text \<open>Time value ascending, then tier ascending, then buffer index ascending.\<close>

definition event_le :: "Point \<Rightarrow> Point \<Rightarrow> bool" where
  "event_le p q \<longleftrightarrow>
     time_value p < time_value q \<or>
     (time_value p = time_value q \<and>
        (event_tier p < event_tier q \<or>
         (event_tier p = event_tier q \<and> buffer_idx p \<le> buffer_idx q)))"

section \<open>Overlaps recorded by one activation\<close>

text \<open>
  The overlap entries that the activation of buffer \<open>b\<close> against the active buffers \<open>A\<close>
  adds to the data of buffer \<open>i\<close>: an entry for \<open>b\<close> when \<open>i\<close> is active and has an
  effective size paired with \<open>b\<close>, and, when \<open>i\<close> is \<open>b\<close> itself, an entry for every active
  buffer with which \<open>b\<close> has an effective size.
\<close>

definition new_overlaps ::
  "(Buffer \<Rightarrow> Buffer \<Rightarrow> int option) \<Rightarrow> Problem \<Rightarrow> BufferIdx \<Rightarrow> BufferIdx set \<Rightarrow> BufferIdx
     \<Rightarrow> Overlap set" where
  "new_overlaps es problem b A i =
     {Overlap b sz | sz. i \<in> A \<and> es (buffers problem ! i) (buffers problem ! b) = Some sz} \<union>
     {Overlap a sz | a sz.
        a \<in> A \<and> i = b \<and> es (buffers problem ! b) (buffers problem ! a) = Some sz}"

section \<open>Buffers that cross a section boundary\<close>

text \<open>
  A buffer crosses the boundary after section \<open>i\<close> when its first span begins at or before
  \<open>i\<close> and its last span ends after \<open>i + 1\<close>.
\<close>

definition crosses :: "int \<Rightarrow> BufferData \<Rightarrow> bool" where
  "crosses i bd \<longleftrightarrow>
     lower (section_range (hd (section_spans bd))) \<le> i \<and>
     i + 1 < upper (section_range (last (section_spans bd)))"

text \<open>
  The data of a buffer is fit for the cut count over \<open>n\<close> sections when it has a span, the
  bounds of its overall range are \<^verbatim>\<open>int\<close>s, the lower one below \<^verbatim>\<open>INT_MAX\<close> so that 1 can be
  added to it, and the boundaries it crosses, if any, are boundaries of the \<open>n\<close> sections.
\<close>

definition cuts_in_range :: "nat \<Rightarrow> BufferData \<Rightarrow> bool" where
  "cuts_in_range n bd \<longleftrightarrow>
     section_spans bd \<noteq> [] \<and>
     is_int (lower (section_range (hd (section_spans bd)))) \<and>
     is_int (upper (section_range (last (section_spans bd)))) \<and>
     lower (section_range (hd (section_spans bd))) < int_max \<and>
     (if lower (section_range (hd (section_spans bd))) + 1
           < upper (section_range (last (section_spans bd)))
      then 0 \<le> lower (section_range (hd (section_spans bd))) \<and>
           upper (section_range (last (section_spans bd))) \<le> int n
      else True)"

section \<open>Example problems\<close>

text \<open>Two instances of the buffers' \<^verbatim>\<open>effective_size\<close>, for closed statements.\<close>

definition no_conflict :: "Buffer \<Rightarrow> Buffer \<Rightarrow> int option" where
  "no_conflict a b = None"

definition larger_size :: "Buffer \<Rightarrow> Buffer \<Rightarrow> int option" where
  "larger_size a b = Some (max (buffer_size a) (buffer_size b))"

text \<open>No buffers at all.\<close>

definition empty_problem :: Problem where
  "empty_problem = \<lparr>buffers = []\<rparr>"

text \<open>Buffer 0 lives in [0,10), buffer 1 in [5,15), both of size 4 and without gaps.\<close>

definition two_overlapping :: Problem where
  "two_overlapping =
     \<lparr>buffers = [\<lparr>lifespan = Interval 0 10, buffer_size = 4, gaps = []\<rparr>,
                 \<lparr>lifespan = Interval 5 15, buffer_size = 4, gaps = []\<rparr>]\<rparr>"

text \<open>One buffer, [0,10) of size 10, with the gap [3,7) of window {0, 2}.\<close>

definition windowed_gap :: Problem where
  "windowed_gap =
     \<lparr>buffers = [\<lparr>lifespan = Interval 0 10, buffer_size = 10,
                  gaps = [\<lparr>gap_lifespan = Interval 3 7,
                           gap_window = Some (Interval 0 2)\<rparr>]\<rparr>]\<rparr>"

text \<open>One buffer, [0,10) of size 10, with a gap [5,10) without window up to its end.\<close>

definition gap_until_end :: Problem where
  "gap_until_end =
     \<lparr>buffers = [\<lparr>lifespan = Interval 0 10, buffer_size = 10,
                  gaps = [\<lparr>gap_lifespan = Interval 5 10, gap_window = None\<rparr>]\<rparr>]\<rparr>"

text \<open>One buffer, [0,10) of size 10, with the windowed gaps [3,5) and [5,7).\<close>

definition adjacent_gaps :: Problem where
  "adjacent_gaps =
     \<lparr>buffers = [\<lparr>lifespan = Interval 0 10, buffer_size = 10,
                  gaps = [\<lparr>gap_lifespan = Interval 3 5, gap_window = Some (Interval 0 2)\<rparr>,
                          \<lparr>gap_lifespan = Interval 5 7,
                           gap_window = Some (Interval 0 3)\<rparr>]\<rparr>]\<rparr>"

text \<open>
  Buffer 0, [0,10) of size \<open>sa\<close> with the gap [3,7) without window, and a guest, buffer 1,
  [l,u) of size \<open>sb\<close> without gaps.
\<close>

definition gap_with_guest :: "int \<Rightarrow> int \<Rightarrow> int \<Rightarrow> int \<Rightarrow> Problem" where
  "gap_with_guest sa l u sb =
     \<lparr>buffers = [\<lparr>lifespan = Interval 0 10, buffer_size = sa,
                  gaps = [\<lparr>gap_lifespan = Interval 3 7, gap_window = None\<rparr>]\<rparr>,
                 \<lparr>lifespan = Interval l u, buffer_size = sb, gaps = []\<rparr>]\<rparr>"

text \<open>
  Buffer 0, [0,10) of size 4 with the gap [3,7) without window, and as guest buffer 1,
  [3,7) of size 2, with a gap [5,7) without window of its own, up to its end.
\<close>

definition guest_with_gap :: Problem where
  "guest_with_gap =
     \<lparr>buffers = [\<lparr>lifespan = Interval 0 10, buffer_size = 4,
                  gaps = [\<lparr>gap_lifespan = Interval 3 7, gap_window = None\<rparr>]\<rparr>,
                 \<lparr>lifespan = Interval 3 7, buffer_size = 2,
                  gaps = [\<lparr>gap_lifespan = Interval 5 7, gap_window = None\<rparr>]\<rparr>]\<rparr>"

text \<open>
  Buffer 0, [0,10) of size 4 without gaps, beside buffer 1, [0,10) of size 6 with the gap
  [3,7) without window; the third and the fourth point of the sweep, and the states of the
  sweep before, between and after them.
\<close>

definition gap_beside_buffer :: Problem where
  "gap_beside_buffer =
     \<lparr>buffers = [\<lparr>lifespan = Interval 0 10, buffer_size = 4, gaps = []\<rparr>,
                 \<lparr>lifespan = Interval 0 10, buffer_size = 6,
                  gaps = [\<lparr>gap_lifespan = Interval 3 7, gap_window = None\<rparr>]\<rparr>]\<rparr>"

definition gap_start_point :: Point where
  "gap_start_point =
     \<lparr>buffer_idx = 1, time_value = 3, point_type = kRightGap, window = None\<rparr>"

definition gap_end_point :: Point where
  "gap_end_point =
     \<lparr>buffer_idx = 1, time_value = 7, point_type = kLeftGap, window = None\<rparr>"

definition both_started :: SweepState where
  "both_started =
     \<lparr>sections = [],
      partitions = [\<lparr>buffer_idxs = [0, 1], partition_range = Interval 0 0\<rparr>],
      buffer_data = [\<lparr>section_spans = [], overlaps = [Overlap 1 6]\<rparr>,
                     \<lparr>section_spans = [], overlaps = [Overlap 0 6]\<rparr>],
      actives = [0, 1], alive = [0, 1], last_section_time = 0, last_section_idx = 0,
      buffer_idx_to_section_start = [0, 0],
      buffer_idx_to_window = [Interval 0 4, Interval 0 6]\<rparr>"

definition in_gap :: SweepState where
  "in_gap =
     \<lparr>sections = [[0, 1]],
      partitions = [\<lparr>buffer_idxs = [0, 1], partition_range = Interval 0 0\<rparr>],
      buffer_data =
        [\<lparr>section_spans = [], overlaps = [Overlap 1 6]\<rparr>,
         \<lparr>section_spans = [\<lparr>section_range = Interval 0 1, span_window = Interval 0 6\<rparr>],
          overlaps = [Overlap 0 6]\<rparr>],
      actives = [0], alive = [0, 1], last_section_time = 3, last_section_idx = 0,
      buffer_idx_to_section_start = [0, - 1],
      buffer_idx_to_window = [Interval 0 4, Interval 0 6]\<rparr>"

definition resumed :: SweepState where
  "resumed =
     \<lparr>sections = [[0, 1]],
      partitions = [\<lparr>buffer_idxs = [0, 1], partition_range = Interval 0 0\<rparr>],
      buffer_data =
        [\<lparr>section_spans = [], overlaps = [Overlap 1 6]\<rparr>,
         \<lparr>section_spans = [\<lparr>section_range = Interval 0 1, span_window = Interval 0 6\<rparr>],
          overlaps = [Overlap 0 6]\<rparr>],
      actives = [0, 1], alive = [0, 1], last_section_time = 3, last_section_idx = 0,
      buffer_idx_to_section_start = [0, 1],
      buffer_idx_to_window = [Interval 0 4, Interval 0 6]\<rparr>"

text \<open>
  A result of one section whose only buffer has the span [0,3): not a result of \<open>Sweep\<close>,
  but a value of the struct, on which \<open>CalculateCuts\<close> can be called.
\<close>

definition span_beyond_sections :: SweepResult where
  "span_beyond_sections =
     \<lparr>sections = [[0]], partitions = [],
      buffer_data =
        [\<lparr>section_spans = [\<lparr>section_range = Interval 0 3, span_window = Interval 0 1\<rparr>],
          overlaps = []\<rparr>]\<rparr>"

text \<open>
  A result of one section whose only buffer has the empty span at \<^verbatim>\<open>INT_MAX\<close>: it crosses no
  boundary.
\<close>

definition span_at_int_max :: SweepResult where
  "span_at_int_max =
     \<lparr>sections = [[0]], partitions = [],
      buffer_data =
        [\<lparr>section_spans =
            [\<lparr>section_range = Interval 2147483647 2147483647, span_window = Interval 0 1\<rparr>],
          overlaps = []\<rparr>]\<rparr>"

section \<open>Well-formed problems\<close>

text \<open>
  The sweeper validates nothing. The specification asks for non-negative times and sizes,
  lifespans and gaps that are neither empty nor inverted, and gaps inside the lifespan of
  their buffer; the gaps of a buffer come in order, each ending before the next begins or
  where it begins.
\<close>

definition well_formed_gap :: "Buffer \<Rightarrow> Gap \<Rightarrow> bool" where
  "well_formed_gap b g \<longleftrightarrow>
     lower (lifespan b) \<le> lower (gap_lifespan g) \<and>
     lower (gap_lifespan g) < upper (gap_lifespan g) \<and>
     upper (gap_lifespan g) \<le> upper (lifespan b)"

definition well_formed_buffer :: "Buffer \<Rightarrow> bool" where
  "well_formed_buffer b \<longleftrightarrow>
     0 \<le> lower (lifespan b) \<and> lower (lifespan b) < upper (lifespan b) \<and>
     0 \<le> buffer_size b \<and>
     list_all (well_formed_gap b) (gaps b) \<and>
     sorted_wrt (\<lambda>g h. upper (gap_lifespan g) \<le> lower (gap_lifespan h)) (gaps b)"

definition well_formed :: "Problem \<Rightarrow> bool" where
  "well_formed problem \<longleftrightarrow> list_all well_formed_buffer (buffers problem)"

text \<open>No windowed gap of the buffer ends exactly where a windowed gap of it begins.\<close>

definition windows_apart :: "Buffer \<Rightarrow> bool" where
  "windows_apart b \<longleftrightarrow>
     list_all (\<lambda>g. list_all (\<lambda>h. \<not> (gap_window g \<noteq> None \<and> gap_window h \<noteq> None \<and>
                                  upper (gap_lifespan g) = lower (gap_lifespan h))) (gaps b))
       (gaps b)"

section \<open>Ordered spans and the invariants of the sweep\<close>

text \<open>
  The points at which the main loop closes the open span of a buffer (lines 132 and 145)
  and those at which it opens one (line 196).
\<close>

definition closes :: "Point \<Rightarrow> bool" where
  "closes p \<longleftrightarrow> isRight p \<or> isEmptyRightGap p \<or> isWindowedRightGap p \<or> isWindowedLeftGap p"

definition opens :: "Point \<Rightarrow> bool" where
  "opens p \<longleftrightarrow> isLeft p \<or> isEmptyLeftGap p \<or> isWindowedLeftGap p \<or> isWindowedRightGap p"

text \<open>
  Spans in section order without overlap: each span ends no later than the next begins, and
  no range is inverted.
\<close>

definition spans_ordered :: "SectionSpan list \<Rightarrow> bool" where
  "spans_ordered spans \<longleftrightarrow>
     sorted_wrt (\<lambda>a b. upper (section_range a) \<le> lower (section_range b)) spans \<and>
     list_all (\<lambda>a. lower (section_range a) \<le> upper (section_range a)) spans"

text \<open>
  Strictly increasing section order without overlap: of two spans the earlier begins before
  the later and ends no later than the later begins.
\<close>

definition strictly_increasing :: "SectionSpan list \<Rightarrow> bool" where
  "strictly_increasing spans \<longleftrightarrow>
     sorted_wrt (\<lambda>a b. lower (section_range a) < lower (section_range b) \<and>
                        upper (section_range a) \<le> lower (section_range b)) spans"

text \<open>
  What the loop maintains for the spans: with \<open>n\<close> sections recorded, the spans of a buffer
  are ordered, begin at or after 0 and end at or before \<open>n\<close>, and an open span starts at or
  before \<open>n\<close> and at or after the end of every recorded span.
\<close>

definition spans_below :: "int \<Rightarrow> SectionSpan list \<Rightarrow> bool" where
  "spans_below n spans \<longleftrightarrow> list_all (\<lambda>a. upper (section_range a) \<le> n) spans"

definition buffer_inv :: "int \<Rightarrow> SectionIdx \<Rightarrow> SectionSpan list \<Rightarrow> bool" where
  "buffer_inv n start spans \<longleftrightarrow>
     spans_ordered spans \<and> spans_below n spans \<and>
     list_all (\<lambda>a. 0 \<le> lower (section_range a)) spans \<and>
     - 1 \<le> start \<and> start \<le> n \<and>
     (start \<noteq> - 1 \<longrightarrow> spans_below start spans)"

definition spans_inv :: "'a SweepState_scheme \<Rightarrow> bool" where
  "spans_inv s \<longleftrightarrow>
     length (buffer_idx_to_section_start s) = length (buffer_data s) \<and>
     last_section_idx s \<le> int (length (sections s)) \<and>
     list_all (\<lambda>q. lower (partition_range q) \<le> upper (partition_range q)) (partitions s) \<and>
     (\<forall>i < length (buffer_data s).
        buffer_inv (int (length (sections s))) (buffer_idx_to_section_start s ! i)
          (section_spans (buffer_data s ! i)))"

text \<open>All vectors have one element per buffer, and the active buffers are buffers.\<close>

definition bounds_inv :: "Problem \<Rightarrow> 'a SweepState_scheme \<Rightarrow> bool" where
  "bounds_inv pb s \<longleftrightarrow>
     length (buffer_data s) = length (buffers pb) \<and>
     length (buffer_idx_to_section_start s) = length (buffers pb) \<and>
     length (buffer_idx_to_window s) = length (buffers pb) \<and>
     list_all (\<lambda>a. a < length (buffers pb)) (actives s)"

text \<open>
  What the loop maintains with respect to the points \<open>pre\<close> processed so far: a partition
  exists once a buffer is alive or has started; the recorded section time is that of a
  processed point; and a buffer with an open span has a processed point that opened it,
  at or after the recorded section time when no section was recorded since.
\<close>

definition order_inv :: "Problem \<Rightarrow> Point list \<Rightarrow> 'a SweepState_scheme \<Rightarrow> bool" where
  "order_inv pb pre s \<longleftrightarrow>
     (alive s \<noteq> [] \<longrightarrow> partitions s \<noteq> []) \<and>
     ((\<exists>l \<in> set pre. isLeft l) \<longrightarrow> partitions s \<noteq> []) \<and>
     (if pre = [] then last_section_time s = - 1
      else 0 \<le> last_section_time s \<and> last_section_time s \<le> time_value (last pre)) \<and>
     (\<forall>i < length (buffers pb). buffer_idx_to_section_start s ! i \<noteq> - 1 \<longrightarrow>
        (\<exists>e \<in> set pre. buffer_idx e = i \<and> opens e \<and>
           (buffer_idx_to_section_start s ! i = int (length (sections s)) \<longrightarrow>
              last_section_time s \<le> time_value e)))"

text \<open>No recorded span is empty.\<close>

definition filled_inv :: "'a SweepState_scheme \<Rightarrow> bool" where
  "filled_inv s \<longleftrightarrow>
     (\<forall>i < length (buffer_data s).
        list_all (\<lambda>a. lower (section_range a) < upper (section_range a))
          (section_spans (buffer_data s ! i)))"

section \<open>The section ranges of the partitions\<close>

text \<open>
  Section ranges that follow one another from \<open>k\<close> to \<open>n\<close>: the first begins at \<open>k\<close>, each
  begins where the one before it ends, the last ends at \<open>n\<close>, and none is empty. Such
  ranges are pairwise disjoint, in increasing order, and their union is \<open>[k, n)\<close>.
\<close>

fun ranges_cover :: "int \<Rightarrow> SectionRange list \<Rightarrow> int \<Rightarrow> bool" where
  "ranges_cover k [] n \<longleftrightarrow> k = n"
| "ranges_cover k (r # rs) n \<longleftrightarrow> lower r = k \<and> lower r < upper r \<and> ranges_cover (upper r) rs n"

text \<open>Every gap without window of the buffer ends before the buffer does.\<close>

definition resumes :: "Buffer \<Rightarrow> bool" where
  "resumes b \<longleftrightarrow>
     list_all (\<lambda>g. gap_window g \<noteq> None \<or> upper (gap_lifespan g) < upper (lifespan b)) (gaps b)"

text \<open>The points of lines 87 and 100: the true start and the true end of a buffer.\<close>

definition start_point :: "Problem \<Rightarrow> BufferIdx \<Rightarrow> Point" where
  "start_point pb i =
     \<lparr>buffer_idx = i, time_value = lower (lifespan (buffers pb ! i)), point_type = kLeft,
      window = None\<rparr>"

definition end_point :: "Problem \<Rightarrow> BufferIdx \<Rightarrow> Point" where
  "end_point pb i =
     \<lparr>buffer_idx = i, time_value = upper (lifespan (buffers pb ! i)), point_type = kRight,
      window = None\<rparr>"

text \<open>
  What the loop maintains for the partitions, with respect to the points \<open>pre\<close> processed so
  far. The buffers alive are those that have started and not ended.
\<close>

definition alive_inv :: "Problem \<Rightarrow> Point list \<Rightarrow> 'a SweepState_scheme \<Rightarrow> bool" where
  "alive_inv pb pre s \<longleftrightarrow>
     (\<forall>i. i \<in> set (alive s) \<longleftrightarrow> start_point pb i \<in> set pre \<and> end_point pb i \<notin> set pre)"

text \<open>
  A buffer alive without an open span is inside a gap without window, whose end is still to
  come; a buffer that has ended has an open span only after its last point; and the recorded
  section time is at or after the time of every processed point that closes a span.
\<close>

definition pending_inv :: "Problem \<Rightarrow> Point list \<Rightarrow> 'a SweepState_scheme \<Rightarrow> bool" where
  "pending_inv pb pre s \<longleftrightarrow>
     (\<forall>i \<in> set (alive s). buffer_idx_to_section_start s ! i = - 1 \<longrightarrow>
        (\<exists>q \<in> set (sweep_points pb). q \<notin> set pre \<and> buffer_idx q = i \<and> isEmptyLeftGap q)) \<and>
     (\<forall>i. end_point pb i \<in> set pre \<longrightarrow> buffer_idx_to_section_start s ! i \<noteq> - 1 \<longrightarrow>
        (\<forall>q \<in> set (sweep_points pb). buffer_idx q = i \<longrightarrow> q \<in> set pre)) \<and>
     (\<forall>c \<in> set pre. closes c \<longrightarrow> time_value c \<le> last_section_time s)"

text \<open>
  The ranges of the closed partitions follow one another from 0 to \<open>last_section_idx\<close>; the
  last partition is open exactly while a buffer is alive. Between two partitions no section
  is recorded beyond \<open>last_section_idx\<close> unless a buffer is still to start, and an open
  partition has a section of its own, or holds a buffer that started at or after the
  recorded section time, so that its end will record one.
\<close>

definition cover_inv :: "Problem \<Rightarrow> Point list \<Rightarrow> 'a SweepState_scheme \<Rightarrow> bool" where
  "cover_inv pb pre s \<longleftrightarrow>
     (if alive s = []
      then ranges_cover 0 (map partition_range (partitions s)) (last_section_idx s)
      else partitions s \<noteq> [] \<and>
           ranges_cover 0 (butlast (map partition_range (partitions s))) (last_section_idx s)) \<and>
     (last_section_idx s = int (length (sections s)) \<or> alive s \<noteq> [] \<or>
      (\<exists>l \<in> set (sweep_points pb). l \<notin> set pre \<and> isLeft l)) \<and>
     (alive s \<noteq> [] \<longrightarrow>
        last_section_idx s < int (length (sections s)) \<or>
        (\<exists>j \<in> set (alive s). last_section_time s \<le> lower (lifespan (buffers pb ! j))))"

section \<open>Evaluation\<close>

lemmas sweep_eval =
  Sweep_def sweep_points_def sort_points_def make_points_def buffer_points_def gap_points_def
  point_less_def initial_state_def result_of_def process_point_def in_bounds_def
  init_section_time_def reset_window_def flush_section_def erase_buffer_def close_span_def
  set_gap_window_def open_partition_def join_partition_def record_overlaps_def
  insert_buffer_def open_span_def isLeft_def isRight_def isEmptyLeftGap_def
  isEmptyRightGap_def isWindowedLeftGap_def isWindowedRightGap_def btree_erase_def
  idx_less_def set_back_range_def push_back_idx_def pair_overlaps_def insert_overlap_def
  overlap_less_def upt_rec Let_def

lemmas cuts_eval =
  CalculateCuts_def new_vector_def vector_max_size_def cuts_size_def count_cuts.simps
  int_max_def

lemma Sweep_two_overlapping:
  "Sweep es two_overlapping = Some
     \<lparr>sections = [[0, 1], [1]],
      partitions = [\<lparr>buffer_idxs = [0, 1], partition_range = Interval 0 2\<rparr>],
      buffer_data =
        [\<lparr>section_spans = [\<lparr>section_range = Interval 0 1, span_window = Interval 0 4\<rparr>],
          overlaps = (case es (buffers two_overlapping ! 0) (buffers two_overlapping ! 1) of
                        None \<Rightarrow> [] | Some sz \<Rightarrow> [Overlap 1 sz])\<rparr>,
         \<lparr>section_spans = [\<lparr>section_range = Interval 0 2, span_window = Interval 0 4\<rparr>],
          overlaps = (case es (buffers two_overlapping ! 1) (buffers two_overlapping ! 0) of
                        None \<Rightarrow> [] | Some sz \<Rightarrow> [Overlap 0 sz])\<rparr>]\<rparr>"
  by (simp add: two_overlapping_def sweep_eval split: option.split)

lemma Sweep_windowed_gap:
  "Sweep es windowed_gap = Some
     \<lparr>sections = [[0], [0], [0]],
      partitions = [\<lparr>buffer_idxs = [0], partition_range = Interval 0 3\<rparr>],
      buffer_data =
        [\<lparr>section_spans =
            [\<lparr>section_range = Interval 0 1, span_window = Interval 0 10\<rparr>,
             \<lparr>section_range = Interval 1 2, span_window = Interval 0 10\<rparr>,
             \<lparr>section_range = Interval 2 3, span_window = Interval 0 2\<rparr>],
          overlaps = []\<rparr>]\<rparr>"
  by (simp add: windowed_gap_def sweep_eval)

lemma Sweep_gap_until_end:
  "Sweep es gap_until_end = Some
     \<lparr>sections = [[0], []],
      partitions = [\<lparr>buffer_idxs = [0], partition_range = Interval 0 0\<rparr>,
                    \<lparr>buffer_idxs = [], partition_range = Interval 0 0\<rparr>],
      buffer_data =
        [\<lparr>section_spans = [\<lparr>section_range = Interval 0 1, span_window = Interval 0 10\<rparr>],
          overlaps = []\<rparr>]\<rparr>"
  by (simp add: gap_until_end_def sweep_eval)

lemma Sweep_adjacent_gaps:
  "Sweep es adjacent_gaps = Some
     \<lparr>sections = [[0], [0], [0], [0]],
      partitions = [\<lparr>buffer_idxs = [0], partition_range = Interval 0 4\<rparr>],
      buffer_data =
        [\<lparr>section_spans =
            [\<lparr>section_range = Interval 0 1, span_window = Interval 0 10\<rparr>,
             \<lparr>section_range = Interval 1 2, span_window = Interval 0 10\<rparr>,
             \<lparr>section_range = Interval 2 2, span_window = Interval 0 10\<rparr>,
             \<lparr>section_range = Interval 2 3, span_window = Interval 0 2\<rparr>,
             \<lparr>section_range = Interval 3 4, span_window = Interval 0 3\<rparr>],
          overlaps = []\<rparr>]\<rparr>"
  by (simp add: adjacent_gaps_def sweep_eval)

lemma Sweep_empty_problem:
  "Sweep es empty_problem = Some \<lparr>sections = [], partitions = [], buffer_data = []\<rparr>"
  by (simp add: empty_problem_def sweep_eval)

section \<open>The windows of the spans around a windowed gap\<close>

text \<open>
  C1. For the buffer [0,10) of size 10 with the gap [3,7) of window {0, 2}, the sweep
  records three spans, one per section. The span of the gap, [1,2), carries the full window
  {0, 10}, and the span after the gap, [2,3), carries the gap's window {0, 2}: the window of
  a gap is written at the gap's upper end (\<open>isWindowedLeftGap\<close>, after the gap's span is
  closed) and the full window at its lower end (\<open>isWindowedRightGap\<close>).
\<close>

theorem windowed_gap_span_windows:
  "map_option (\<lambda>r. map section_spans (buffer_data r)) (Sweep es windowed_gap) =
     Some [[\<lparr>section_range = Interval 0 1, span_window = Interval 0 10\<rparr>,
            \<lparr>section_range = Interval 1 2, span_window = Interval 0 10\<rparr>,
            \<lparr>section_range = Interval 2 3, span_window = Interval 0 2\<rparr>]]"
  by (simp add: Sweep_windowed_gap)

section \<open>Two overlapping buffers\<close>

text \<open>
  C3, as the code has it. For buffer 0 in [0,10) and buffer 1 in [5,15), both of size 4 and
  without gaps, the sweep records two sections, {0, 1} and {1}: no section is recorded when
  buffer 1 starts, so {0} alone never appears. There is one partition, of both buffers and
  both sections, and \<open>CalculateCuts\<close> returns one counter, equal to 1.
\<close>

theorem two_overlapping_sections_cuts:
  "map_option sections (Sweep es two_overlapping) = Some [[0, 1], [1]] \<and>
   map_option partitions (Sweep es two_overlapping) =
     Some [\<lparr>buffer_idxs = [0, 1], partition_range = Interval 0 2\<rparr>] \<and>
   Option.bind (Sweep es two_overlapping) CalculateCuts = Some [1]"
  by (simp add: Sweep_two_overlapping cuts_eval)

text \<open>
  C3 as stated fails: the sections are not {0}, {0, 1}, {1}, they are not three, and the
  cuts are not two counters equal to 1.
\<close>

theorem two_overlapping_not_three_sections:
  "Sweep no_conflict two_overlapping \<noteq> None \<and>
   sections (the (Sweep no_conflict two_overlapping)) \<noteq> [[0], [0, 1], [1]] \<and>
   length (sections (the (Sweep no_conflict two_overlapping))) \<noteq> 3 \<and>
   CalculateCuts (the (Sweep no_conflict two_overlapping)) \<noteq> Some [1, 1]"
  by (simp add: Sweep_two_overlapping cuts_eval)

section \<open>A gap without window that lasts to the end of its buffer\<close>

text \<open>
  C4. The buffer [0,10) with the gap [5,10) without window is well-formed. For it the sweep
  records the two sections {0} and {}, and two partitions whose section ranges are both the
  initial {0, 0}: the right point of the buffer finds no open span, so the range of the
  partition is never written, and the gap's upper end, which follows the right point at
  time 10, opens a second partition. The ranges do not cover the sections [0, 2).
\<close>

theorem gap_until_end_partitions:
  "well_formed gap_until_end \<and>
   map_option sections (Sweep es gap_until_end) = Some [[0], []] \<and>
   map_option (\<lambda>r. map partition_range (partitions r)) (Sweep es gap_until_end) =
     Some [Interval 0 0, Interval 0 0] \<and>
   map_option (\<lambda>r. ranges_cover 0 (map partition_range (partitions r))
                       (int (length (sections r)))) (Sweep es gap_until_end) = Some False"
proof -
  have "well_formed gap_until_end"
    by (simp add: gap_until_end_def well_formed_def well_formed_buffer_def
        well_formed_gap_def)
  then show ?thesis by (simp add: Sweep_gap_until_end)
qed

section \<open>The phases of one iteration\<close>

text \<open>Each phase writes few fields of the state.\<close>

lemma init_section_time_fields [simp]:
  "sections (init_section_time p s) = sections s"
  "partitions (init_section_time p s) = partitions s"
  "buffer_data (init_section_time p s) = buffer_data s"
  "actives (init_section_time p s) = actives s"
  "alive (init_section_time p s) = alive s"
  "last_section_idx (init_section_time p s) = last_section_idx s"
  "buffer_idx_to_section_start (init_section_time p s) = buffer_idx_to_section_start s"
  "buffer_idx_to_window (init_section_time p s) = buffer_idx_to_window s"
  by (simp_all add: init_section_time_def)

lemma reset_window_fields [simp]:
  "sections (reset_window pb p s) = sections s"
  "partitions (reset_window pb p s) = partitions s"
  "buffer_data (reset_window pb p s) = buffer_data s"
  "actives (reset_window pb p s) = actives s"
  "alive (reset_window pb p s) = alive s"
  "last_section_time (reset_window pb p s) = last_section_time s"
  "last_section_idx (reset_window pb p s) = last_section_idx s"
  "buffer_idx_to_section_start (reset_window pb p s) = buffer_idx_to_section_start s"
  by (simp_all add: reset_window_def)

lemma flush_section_fields [simp]:
  "partitions (flush_section p s) = partitions s"
  "buffer_data (flush_section p s) = buffer_data s"
  "actives (flush_section p s) = actives s"
  "alive (flush_section p s) = alive s"
  "last_section_idx (flush_section p s) = last_section_idx s"
  "buffer_idx_to_section_start (flush_section p s) = buffer_idx_to_section_start s"
  "buffer_idx_to_window (flush_section p s) = buffer_idx_to_window s"
  by (simp_all add: flush_section_def)

lemma erase_buffer_fields [simp]:
  "sections (erase_buffer p s) = sections s"
  "partitions (erase_buffer p s) = partitions s"
  "buffer_data (erase_buffer p s) = buffer_data s"
  "last_section_time (erase_buffer p s) = last_section_time s"
  "last_section_idx (erase_buffer p s) = last_section_idx s"
  "buffer_idx_to_section_start (erase_buffer p s) = buffer_idx_to_section_start s"
  "buffer_idx_to_window (erase_buffer p s) = buffer_idx_to_window s"
  by (simp_all add: erase_buffer_def Let_def)

lemma close_span_fields:
  assumes "close_span p s = Some s'"
  shows "sections s' = sections s" "actives s' = actives s" "alive s' = alive s"
    "last_section_time s' = last_section_time s"
    "buffer_idx_to_window s' = buffer_idx_to_window s"
  using assms by (auto simp: close_span_def Let_def split: if_splits)

lemma set_gap_window_fields [simp]:
  "sections (set_gap_window p s) = sections s"
  "partitions (set_gap_window p s) = partitions s"
  "buffer_data (set_gap_window p s) = buffer_data s"
  "actives (set_gap_window p s) = actives s"
  "alive (set_gap_window p s) = alive s"
  "last_section_time (set_gap_window p s) = last_section_time s"
  "last_section_idx (set_gap_window p s) = last_section_idx s"
  "buffer_idx_to_section_start (set_gap_window p s) = buffer_idx_to_section_start s"
  by (simp_all add: set_gap_window_def)

lemma open_partition_fields [simp]:
  "sections (open_partition p s) = sections s"
  "buffer_data (open_partition p s) = buffer_data s"
  "actives (open_partition p s) = actives s"
  "alive (open_partition p s) = alive s"
  "last_section_time (open_partition p s) = last_section_time s"
  "last_section_idx (open_partition p s) = last_section_idx s"
  "buffer_idx_to_section_start (open_partition p s) = buffer_idx_to_section_start s"
  "buffer_idx_to_window (open_partition p s) = buffer_idx_to_window s"
  by (simp_all add: open_partition_def)

lemma join_partition_fields:
  assumes "join_partition p s = Some s'"
  shows "sections s' = sections s" "buffer_data s' = buffer_data s"
    "actives s' = actives s" "alive s' = alive s"
    "last_section_time s' = last_section_time s" "last_section_idx s' = last_section_idx s"
    "buffer_idx_to_section_start s' = buffer_idx_to_section_start s"
    "buffer_idx_to_window s' = buffer_idx_to_window s"
  using assms by (auto simp: join_partition_def split: if_splits)

lemma record_overlaps_fields [simp]:
  "sections (record_overlaps es pb p s) = sections s"
  "partitions (record_overlaps es pb p s) = partitions s"
  "actives (record_overlaps es pb p s) = actives s"
  "alive (record_overlaps es pb p s) = alive s"
  "last_section_time (record_overlaps es pb p s) = last_section_time s"
  "last_section_idx (record_overlaps es pb p s) = last_section_idx s"
  "buffer_idx_to_section_start (record_overlaps es pb p s) = buffer_idx_to_section_start s"
  "buffer_idx_to_window (record_overlaps es pb p s) = buffer_idx_to_window s"
  by (simp_all add: record_overlaps_def)

lemma insert_buffer_fields [simp]:
  "sections (insert_buffer p s) = sections s"
  "partitions (insert_buffer p s) = partitions s"
  "buffer_data (insert_buffer p s) = buffer_data s"
  "last_section_time (insert_buffer p s) = last_section_time s"
  "last_section_idx (insert_buffer p s) = last_section_idx s"
  "buffer_idx_to_section_start (insert_buffer p s) = buffer_idx_to_section_start s"
  "buffer_idx_to_window (insert_buffer p s) = buffer_idx_to_window s"
  by (simp_all add: insert_buffer_def Let_def)

lemma open_span_fields [simp]:
  "sections (open_span p s) = sections s"
  "partitions (open_span p s) = partitions s"
  "buffer_data (open_span p s) = buffer_data s"
  "actives (open_span p s) = actives s"
  "alive (open_span p s) = alive s"
  "last_section_time (open_span p s) = last_section_time s"
  "last_section_idx (open_span p s) = last_section_idx s"
  "buffer_idx_to_window (open_span p s) = buffer_idx_to_window s"
  by (simp_all add: open_span_def)

text \<open>The phases of one iteration, named.\<close>

lemma process_point_SomeE:
  assumes "process_point es pb p s = Some s'"
  obtains s5 s8 where
    "in_bounds pb p s"
    "close_span p (erase_buffer p (flush_section p (reset_window pb p (init_section_time p s)))) = Some s5"
    "join_partition p (open_partition p (set_gap_window p s5)) = Some s8"
    "s' = open_span p (insert_buffer p (record_overlaps es pb p s8))"
  using assms by (auto simp: process_point_def split: if_splits option.splits)

lemma process_point_sections:
  assumes "process_point es pb p s = Some s'"
  shows "sections s' = sections (flush_section p (init_section_time p s))"
proof -
  from assms obtain s5 s8 where
    c: "close_span p (erase_buffer p (flush_section p (reset_window pb p (init_section_time p s)))) = Some s5"
    and j: "join_partition p (open_partition p (set_gap_window p s5)) = Some s8"
    and s': "s' = open_span p (insert_buffer p (record_overlaps es pb p s8))"
    by (rule process_point_SomeE)
  show ?thesis
    by (simp add: s' join_partition_fields [OF j] close_span_fields [OF c] flush_section_def reset_window_def)
qed


section \<open>When a section is appended\<close>

text \<open>
  C5. One iteration of the main loop appends at most one section, the set \<open>actives\<close> as it
  is when the iteration begins. It appends it exactly when the point is a true end
  (\<open>isRight\<close>), a gap start without or with window (\<open>isEmptyRightGap\<close>,
  \<open>isWindowedRightGap\<close>) or the end of a windowed gap (\<open>isWindowedLeftGap\<close>) and the
  recorded time of the last section, set already (not the sentinel), is below the point's
  time. So a section is appended only at such a point whose time exceeds the recorded
  time, and never at a true start (\<open>isLeft\<close>) or at the end of a gap without window
  (\<open>isEmptyLeftGap\<close>).
\<close>

theorem section_appended_only_on_shrink:
  assumes "process_point es problem point s = Some s'"
  shows "sections s' =
           (if (isRight point \<or> isEmptyRightGap point \<or> isWindowedRightGap point
                  \<or> isWindowedLeftGap point)
               \<and> last_section_time s \<noteq> - 1 \<and> last_section_time s < time_value point
            then sections s @ [actives s] else sections s) \<and>
         (sections s' \<noteq> sections s \<longrightarrow>
            sections s' = sections s @ [actives s] \<and>
            (isRight point \<or> isEmptyRightGap point \<or> isWindowedRightGap point
               \<or> isWindowedLeftGap point) \<and>
            last_section_time s < time_value point) \<and>
         (isLeft point \<or> isEmptyLeftGap point \<longrightarrow> sections s' = sections s)"
  using process_point_sections [OF assms]
  by (auto simp: flush_section_def init_section_time_def isRight_def isLeft_def
      isEmptyRightGap_def isWindowedRightGap_def isWindowedLeftGap_def isEmptyLeftGap_def)

lemma gap_beside_buffer_points:
  "sweep_points gap_beside_buffer =
     [\<lparr>buffer_idx = 0, time_value = 0, point_type = kLeft, window = None\<rparr>,
      \<lparr>buffer_idx = 1, time_value = 0, point_type = kLeft, window = None\<rparr>,
      gap_start_point, gap_end_point,
      \<lparr>buffer_idx = 0, time_value = 10, point_type = kRight, window = None\<rparr>,
      \<lparr>buffer_idx = 1, time_value = 10, point_type = kRight, window = None\<rparr>]"
  by (simp add: gap_beside_buffer_def gap_start_point_def gap_end_point_def sweep_points_def
      sort_points_def make_points_def buffer_points_def gap_points_def point_less_def upt_rec)

lemma state_after_both_started:
  "state_after larger_size gap_beside_buffer 2 = Some both_started"
  by (simp add: state_after_def gap_beside_buffer_points)
     (simp add: gap_beside_buffer_def both_started_def larger_size_def sweep_eval)

lemma process_gap_start_point:
  "process_point larger_size gap_beside_buffer gap_start_point both_started = Some in_gap"
  by (simp add: gap_beside_buffer_def both_started_def in_gap_def gap_start_point_def
      larger_size_def sweep_eval)

lemma process_gap_end_point:
  "process_point larger_size gap_beside_buffer gap_end_point in_gap = Some resumed"
  by (simp add: gap_beside_buffer_def resumed_def in_gap_def gap_end_point_def
      larger_size_def sweep_eval)

theorem section_appended_only_on_shrink_witness:
  "process_point larger_size gap_beside_buffer gap_start_point both_started = Some in_gap \<and>
   isEmptyRightGap gap_start_point \<and>
   last_section_time both_started < time_value gap_start_point \<and>
   sections both_started = [] \<and> actives both_started = [0, 1] \<and>
   sections in_gap = [[0, 1]]"
proof -
  note t = section_appended_only_on_shrink [OF process_gap_start_point]
  from t have "sections in_gap \<noteq> sections both_started \<longrightarrow>
      sections in_gap = sections both_started @ [actives both_started] \<and>
      (isRight gap_start_point \<or> isEmptyRightGap gap_start_point
         \<or> isWindowedRightGap gap_start_point \<or> isWindowedLeftGap gap_start_point) \<and>
      last_section_time both_started < time_value gap_start_point"
    by blast
  moreover have "sections in_gap \<noteq> sections both_started"
    by (simp add: both_started_def in_gap_def)
  ultimately have "sections in_gap = sections both_started @ [actives both_started] \<and>
      last_section_time both_started < time_value gap_start_point"
    by blast
  moreover have "isEmptyRightGap gap_start_point \<and> sections both_started = [] \<and>
      actives both_started = [0, 1]"
    by (simp add: both_started_def gap_start_point_def isEmptyRightGap_def)
  ultimately show ?thesis
    using process_gap_start_point by simp
qed

section \<open>What an activation does\<close>

lemma overlap_equiv:
  "\<not> overlap_less x y \<Longrightarrow> \<not> overlap_less y x \<Longrightarrow> x = y"
  by (cases x; cases y) (auto simp: overlap_less_def split: if_splits)

lemma set_btree_insert_overlap:
  "set (btree_insert overlap_less x xs) = insert x (set xs)"
  by (induction xs) (auto dest: overlap_equiv)

lemma set_btree_insert_idx:
  "set (btree_insert idx_less x xs) = insert x (set xs)"
  by (induction xs) (auto simp: idx_less_def)

lemma set_btree_erase_idx:
  "set (btree_erase idx_less x xs) = set xs - {x}"
  by (auto simp: btree_erase_def idx_less_def)

lemma length_insert_overlap [simp]:
  "length (insert_overlap i ov bd) = length bd"
  by (simp add: insert_overlap_def)

lemma length_pair_overlaps [simp]:
  "length (pair_overlaps es pb b a bd) = length bd"
  by (simp add: pair_overlaps_def split: option.splits)

lemma length_overlaps_loop [simp]:
  "length (overlaps_loop es pb b as bd) = length bd"
  by (induction as arbitrary: bd) simp_all

lemma overlaps_insert_overlap:
  "i < length bd \<Longrightarrow>
   set (overlaps (insert_overlap j ov bd ! i)) =
     (if i = j then insert ov (set (overlaps (bd ! i))) else set (overlaps (bd ! i)))"
  by (simp add: insert_overlap_def set_btree_insert_overlap nth_list_update)

lemma spans_insert_overlap [simp]:
  "section_spans (insert_overlap j ov bd ! i) = section_spans (bd ! i)"
  by (cases "j < length bd") (simp_all add: insert_overlap_def nth_list_update list_update_beyond)

lemma overlaps_pair_overlaps:
  "i < length bd \<Longrightarrow>
   set (overlaps (pair_overlaps es pb b a bd ! i)) =
     set (overlaps (bd ! i)) \<union> new_overlaps es pb b {a} i"
  by (auto simp: pair_overlaps_def overlaps_insert_overlap new_overlaps_def split: option.splits)

lemma new_overlaps_insert:
  "new_overlaps es pb b (insert a A) i = new_overlaps es pb b {a} i \<union> new_overlaps es pb b A i"
  by (auto simp: new_overlaps_def)

lemma new_overlaps_empty [simp]: "new_overlaps es pb b {} i = {}"
  by (simp add: new_overlaps_def)

lemma overlaps_overlaps_loop:
  "i < length bd \<Longrightarrow>
   set (overlaps (overlaps_loop es pb b as bd ! i)) =
     set (overlaps (bd ! i)) \<union> new_overlaps es pb b (set as) i"
proof (induction as arbitrary: bd)
  case Nil
  then show ?case by simp
next
  case (Cons a as)
  then show ?case
    by (simp add: overlaps_pair_overlaps new_overlaps_insert [of es pb b a "set as"] Un_assoc)
qed

lemma spans_pair_overlaps [simp]:
  "section_spans (pair_overlaps es pb b a bd ! i) = section_spans (bd ! i)"
  by (simp add: pair_overlaps_def split: option.splits)

lemma spans_overlaps_loop [simp]:
  "section_spans (overlaps_loop es pb b as bd ! i) = section_spans (bd ! i)"
  by (induction as arbitrary: bd) simp_all

lemma start_kind_phases:
  assumes "isLeft p \<or> isEmptyLeftGap p"
  shows "reset_window pb p s = s" "flush_section p s = s" "erase_buffer p s = s"
    "close_span p s = Some s" "set_gap_window p s = s"
  using assms
  by (auto simp: reset_window_def flush_section_def erase_buffer_def close_span_def
      set_gap_window_def isLeft_def isRight_def isEmptyLeftGap_def isEmptyRightGap_def
      isWindowedLeftGap_def isWindowedRightGap_def)

lemma process_point_start_kind:
  assumes k: "isLeft p \<or> isEmptyLeftGap p"
    and pp: "process_point es pb p s = Some s'"
  shows "actives s' = btree_insert idx_less (buffer_idx p) (actives s)"
    and "alive s' = (if isLeft p then btree_insert idx_less (buffer_idx p) (alive s) else alive s)"
    and "buffer_data s' = overlaps_loop es pb (buffer_idx p) (actives s) (buffer_data s)"
    and "partitions s' =
           (if isLeft p
            then (if alive s = []
                  then partitions s @ [\<lparr>buffer_idxs = [buffer_idx p], partition_range = Interval 0 0\<rparr>]
                  else push_back_idx (buffer_idx p) (partitions s))
            else (if alive s = []
                  then partitions s @ [\<lparr>buffer_idxs = [], partition_range = Interval 0 0\<rparr>]
                  else partitions s))"
proof -
  from pp obtain s5 s8 where
    c: "close_span p (erase_buffer p (flush_section p (reset_window pb p (init_section_time p s)))) = Some s5"
    and j: "join_partition p (open_partition p (set_gap_window p s5)) = Some s8"
    and s': "s' = open_span p (insert_buffer p (record_overlaps es pb p s8))"
    by (rule process_point_SomeE)
  from c k have s5: "s5 = init_section_time p s"
    by (simp add: start_kind_phases)
  note jf = join_partition_fields [OF j]
  show "actives s' = btree_insert idx_less (buffer_idx p) (actives s)"
    using k by (auto simp: s' jf s5 insert_buffer_def Let_def start_kind_phases)
  show "alive s' = (if isLeft p then btree_insert idx_less (buffer_idx p) (alive s) else alive s)"
    using k by (auto simp: s' jf s5 insert_buffer_def Let_def start_kind_phases)
  show "buffer_data s' = overlaps_loop es pb (buffer_idx p) (actives s) (buffer_data s)"
    using k by (auto simp: s' jf s5 record_overlaps_def start_kind_phases)
  show "partitions s' =
           (if isLeft p
            then (if alive s = []
                  then partitions s @ [\<lparr>buffer_idxs = [buffer_idx p], partition_range = Interval 0 0\<rparr>]
                  else push_back_idx (buffer_idx p) (partitions s))
            else (if alive s = []
                  then partitions s @ [\<lparr>buffer_idxs = [], partition_range = Interval 0 0\<rparr>]
                  else partitions s))"
    using j k
    by (auto simp: s' s5 join_partition_def open_partition_def start_kind_phases push_back_idx_def
        split: if_splits)
qed


text \<open>
  C2, as the code has it. The buffer is activated at its true start (\<open>isLeft\<close>) and at the
  end of a gap without window (\<open>isEmptyLeftGap\<close>), not at the start of such a gap, which
  removes it from \<open>actives\<close>. At such a point of buffer \<open>B\<close> the iteration pairs \<open>B\<close> with
  every buffer \<open>A\<close> that is in \<open>actives\<close> when the iteration begins: an entry for \<open>B\<close> is in
  the overlaps of \<open>A\<close> afterwards when \<open>A\<close> has an effective size paired with \<open>B\<close>, and an
  entry for \<open>A\<close> in those of \<open>B\<close> when \<open>B\<close> has one paired with \<open>A\<close>; no other entry is
  added to any buffer. Then \<open>B\<close> is inserted into \<open>actives\<close>. A true start also inserts \<open>B\<close>
  into \<open>alive\<close> and appends it to the buffers of the last partition, which is a new one when
  no buffer was alive; the end of a gap leaves \<open>alive\<close> as it is.
\<close>

theorem activation_pairs_then_inserts:
  assumes "isLeft point \<or> isEmptyLeftGap point"
    and "process_point es problem point s = Some s'"
  shows "actives s' = btree_insert idx_less (buffer_idx point) (actives s) \<and>
    set (actives s') = insert (buffer_idx point) (set (actives s)) \<and>
    (\<forall>a \<in> set (actives s).
        (\<forall>sz. es (buffers problem ! a) (buffers problem ! buffer_idx point) = Some sz \<longrightarrow>
           Overlap (buffer_idx point) sz \<in> set (overlaps (buffer_data s' ! a))) \<and>
        (\<forall>sz. es (buffers problem ! buffer_idx point) (buffers problem ! a) = Some sz \<longrightarrow>
           Overlap a sz \<in> set (overlaps (buffer_data s' ! buffer_idx point)))) \<and>
    (\<forall>i < length (buffers problem).
        set (overlaps (buffer_data s' ! i)) =
          set (overlaps (buffer_data s ! i))
            \<union> new_overlaps es problem (buffer_idx point) (set (actives s)) i) \<and>
    (isLeft point \<longrightarrow>
       alive s' = btree_insert idx_less (buffer_idx point) (alive s) \<and>
       partitions s' \<noteq> [] \<and>
       butlast (partitions s') = (if alive s = [] then partitions s else butlast (partitions s)) \<and>
       buffer_idxs (last (partitions s')) =
         (if alive s = [] then [] else buffer_idxs (last (partitions s))) @ [buffer_idx point]) \<and>
    (isEmptyLeftGap point \<longrightarrow> alive s' = alive s)"
proof -
  note pk = process_point_start_kind [OF assms]
  from assms(2) have inb: "in_bounds problem point s"
    by (rule process_point_SomeE)
  then have len: "length (buffer_data s) = length (buffers problem)"
    and b: "buffer_idx point < length (buffers problem)"
    and act: "\<forall>a \<in> set (actives s). a < length (buffers problem)"
    by (simp_all add: in_bounds_def list_all_iff)
  have ov: "set (overlaps (buffer_data s' ! i)) =
          set (overlaps (buffer_data s ! i))
            \<union> new_overlaps es problem (buffer_idx point) (set (actives s)) i"
    if "i < length (buffers problem)" for i
    using that len by (simp add: pk(3) overlaps_overlaps_loop)
  have pairs: "(\<forall>sz. es (buffers problem ! a) (buffers problem ! buffer_idx point) = Some sz \<longrightarrow>
           Overlap (buffer_idx point) sz \<in> set (overlaps (buffer_data s' ! a))) \<and>
        (\<forall>sz. es (buffers problem ! buffer_idx point) (buffers problem ! a) = Some sz \<longrightarrow>
           Overlap a sz \<in> set (overlaps (buffer_data s' ! buffer_idx point)))"
    if "a \<in> set (actives s)" for a
    using that act b by (auto simp: ov new_overlaps_def)
  have parts: "partitions s' \<noteq> [] \<and>
       butlast (partitions s') = (if alive s = [] then partitions s else butlast (partitions s)) \<and>
       buffer_idxs (last (partitions s')) =
         (if alive s = [] then [] else buffer_idxs (last (partitions s))) @ [buffer_idx point]"
    if l: "isLeft point"
  proof (cases "alive s = []")
    case True
    with l show ?thesis by (simp add: pk(4))
  next
    case False
    from assms(2) obtain s5 s8 where
      c: "close_span point (erase_buffer point (flush_section point
            (reset_window problem point (init_section_time point s)))) = Some s5"
      and j: "join_partition point (open_partition point (set_gap_window point s5)) = Some s8"
      by (rule process_point_SomeE)
    from c assms(1) have s5: "s5 = init_section_time point s"
      by (simp add: start_kind_phases)
    from j l False have ne: "partitions s \<noteq> []"
      by (auto simp: s5 join_partition_def open_partition_def start_kind_phases split: if_splits)
    then have "partitions s = butlast (partitions s) @ [last (partitions s)]" by simp
    then obtain qs q where qs: "partitions s = qs @ [q]" by blast
    show ?thesis using l False
      by (simp add: pk(4) push_back_idx_def qs)
  qed
  show ?thesis
    using pk(1) pk(2) ov pairs parts assms(1)
    by (simp add: set_btree_insert_idx isLeft_def isEmptyLeftGap_def)
qed

theorem activation_pairs_then_inserts_witness:
  "isEmptyLeftGap gap_end_point \<and>
   process_point larger_size gap_beside_buffer gap_end_point in_gap = Some resumed \<and>
   actives in_gap = [0] \<and> actives resumed = [0, 1] \<and>
   larger_size (buffers gap_beside_buffer ! 0) (buffers gap_beside_buffer ! 1) = Some 6 \<and>
   larger_size (buffers gap_beside_buffer ! 1) (buffers gap_beside_buffer ! 0) = Some 6 \<and>
   Overlap 1 6 \<in> set (overlaps (buffer_data resumed ! 0)) \<and>
   Overlap 0 6 \<in> set (overlaps (buffer_data resumed ! 1)) \<and>
   alive resumed = alive in_gap"
proof -
  have k: "isLeft gap_end_point \<or> isEmptyLeftGap gap_end_point"
    by (simp add: gap_end_point_def isEmptyLeftGap_def)
  have b: "buffer_idx gap_end_point = 1"
    by (simp add: gap_end_point_def)
  have e: "isEmptyLeftGap gap_end_point"
    by (simp add: gap_end_point_def isEmptyLeftGap_def)
  have a: "actives in_gap = [0]"
    by (simp add: in_gap_def)
  have l: "larger_size (buffers gap_beside_buffer ! 0) (buffers gap_beside_buffer ! 1) = Some 6"
    "larger_size (buffers gap_beside_buffer ! 1) (buffers gap_beside_buffer ! 0) = Some 6"
    by (simp_all add: gap_beside_buffer_def larger_size_def)
  note t = activation_pairs_then_inserts [OF k process_gap_end_point]
  from t have "actives resumed = btree_insert idx_less (buffer_idx gap_end_point) (actives in_gap)"
    by blast
  then have r: "actives resumed = [0, 1]"
    by (simp add: a b idx_less_def)
  from t have "\<forall>a \<in> set (actives in_gap).
      (\<forall>sz. larger_size (buffers gap_beside_buffer ! a)
               (buffers gap_beside_buffer ! buffer_idx gap_end_point) = Some sz \<longrightarrow>
          Overlap (buffer_idx gap_end_point) sz \<in> set (overlaps (buffer_data resumed ! a))) \<and>
      (\<forall>sz. larger_size (buffers gap_beside_buffer ! buffer_idx gap_end_point)
               (buffers gap_beside_buffer ! a) = Some sz \<longrightarrow>
          Overlap a sz \<in> set (overlaps (buffer_data resumed ! buffer_idx gap_end_point)))"
    by blast
  with l have o: "Overlap 1 6 \<in> set (overlaps (buffer_data resumed ! 0))"
    "Overlap 0 6 \<in> set (overlaps (buffer_data resumed ! 1))"
    by (simp_all add: a b)
  from t e have "alive resumed = alive in_gap"
    by blast
  with e a r l o show ?thesis
    using process_gap_end_point by simp
qed

text \<open>
  C2 as stated fails at the start of a gap without window: the third point of the sweep of
  \<open>gap_beside_buffer\<close> is the start of the gap of buffer 1; before it buffers 0 and 1 are
  active, after it buffer 1 is not.
\<close>

theorem gap_start_deactivates:
  "sweep_points gap_beside_buffer ! 2 = gap_start_point \<and>
   isEmptyRightGap gap_start_point \<and>
   state_after larger_size gap_beside_buffer 2 = Some both_started \<and>
   process_point larger_size gap_beside_buffer gap_start_point both_started = Some in_gap \<and>
   actives both_started = [0, 1] \<and>
   actives in_gap = [0] \<and>
   buffer_idx gap_start_point \<notin> set (actives in_gap)"
  by (simp add: gap_beside_buffer_points state_after_both_started process_gap_start_point)
     (simp add: gap_start_point_def isEmptyRightGap_def both_started_def in_gap_def)

section \<open>The order of the points\<close>

lemma tier_rank: "tier (event_kind t) = point_type_rank t"
  by (cases t) simp_all

lemma rank_inj: "point_type_rank a = point_type_rank b \<longleftrightarrow> a = b"
  by (cases a; cases b) simp_all

lemma event_le_iff: "event_le p q \<longleftrightarrow> \<not> point_less q p"
  by (cases "point_type p"; cases "point_type q")
     (auto simp: event_le_def point_less_def event_tier_def)

lemma event_le_trans: "event_le p q \<Longrightarrow> event_le q r \<Longrightarrow> event_le p r"
  unfolding event_le_def by (elim disjE conjE) auto

lemma event_le_total: "event_le p q \<or> event_le q p"
  by (auto simp: event_le_def)

lemma set_insert_point [simp]: "set (insert_point p qs) = insert p (set qs)"
  by (induction qs) auto

lemma mset_insert_point [simp]: "mset (insert_point p qs) = add_mset p (mset qs)"
  by (induction qs) auto

lemma sorted_insert_point:
  "sorted_wrt event_le qs \<Longrightarrow> sorted_wrt event_le (insert_point p qs)"
proof (induction qs)
  case Nil
  then show ?case by simp
next
  case (Cons q qs)
  show ?case
  proof (cases "point_less q p")
    case True
    then have "event_le q p"
      using event_le_total [of q p] by (auto simp: event_le_iff)
    with Cons True show ?thesis by auto
  next
    case False
    then have pq: "event_le p q" by (simp add: event_le_iff)
    with Cons.prems have "\<forall>x\<in>set qs. event_le p x"
      by (auto intro: event_le_trans)
    with pq Cons.prems False show ?thesis by auto
  qed
qed

lemma sorted_sort_points: "sorted_wrt event_le (sort_points ps)"
  unfolding sort_points_def by (induction ps) (simp_all add: sorted_insert_point)

lemma mset_sort_points: "mset (sort_points ps) = mset ps"
  unfolding sort_points_def by (induction ps) simp_all


lemma sorted_sweep_points: "sorted_wrt event_le (sweep_points pb)"
  by (simp add: sweep_points_def sorted_sort_points)

lemma mset_sweep_points: "mset (sweep_points pb) = mset (make_points pb)"
  by (simp add: sweep_points_def mset_sort_points)

text \<open>
  A sequence is in the order of the specification exactly when \<open>operator<\<close> never puts a
  later element before an earlier one, which is what \<open>std::sort\<close> establishes.
\<close>

lemma sorted_event_le_iff:
  "sorted_wrt event_le ps = sorted_wrt (\<lambda>p q. \<not> point_less q p) ps"
  by (simp add: event_le_iff [abs_def])


text \<open>
  C6. The points that the main loop consumes are the generated points, sorted by time
  value, then by tier (gap start, true end, true start, gap end, whatever the window),
  then by buffer index.
\<close>

theorem sweep_points_sorted:
  "sorted_wrt event_le (sweep_points problem) \<and>
   mset (sweep_points problem) = mset (make_points problem) \<and>
   sorted_wrt (\<lambda>p q. \<not> point_less q p) (sweep_points problem)"
  using sorted_sweep_points [of problem]
  by (simp add: mset_sweep_points sorted_event_le_iff)

section \<open>A gap without window and a guest inside it\<close>

lemma gap_with_guest_points:
  assumes "3 \<le> l" "l < u" "u \<le> 7"
  shows "sweep_points (gap_with_guest sa l u sb) =
     [\<lparr>buffer_idx = 0, time_value = 0, point_type = kLeft, window = None\<rparr>,
      \<lparr>buffer_idx = 0, time_value = 3, point_type = kRightGap, window = None\<rparr>,
      \<lparr>buffer_idx = 1, time_value = l, point_type = kLeft, window = None\<rparr>,
      \<lparr>buffer_idx = 1, time_value = u, point_type = kRight, window = None\<rparr>,
      \<lparr>buffer_idx = 0, time_value = 7, point_type = kLeftGap, window = None\<rparr>,
      \<lparr>buffer_idx = 0, time_value = 10, point_type = kRight, window = None\<rparr>]"
  using assms
  by (auto simp: gap_with_guest_def sweep_points_def sort_points_def make_points_def buffer_points_def
      gap_points_def point_less_def upt_rec)

lemma gap_with_guest_states:
  assumes "3 \<le> l" "l < u" "u \<le> 7"
  shows "map_option actives (state_after es (gap_with_guest sa l u sb) 2) = Some []"
    "map_option actives (state_after es (gap_with_guest sa l u sb) 3) = Some [1]"
    "map_option actives (state_after es (gap_with_guest sa l u sb) 4) = Some []"
  using assms
  by (simp_all add: state_after_def gap_with_guest_points)
     (simp_all add: gap_with_guest_def sweep_eval)

lemma gap_with_guest_sweep:
  assumes "3 \<le> l" "l < u" "u \<le> 7"
  shows "Sweep es (gap_with_guest sa l u sb) = Some
     \<lparr>sections = [[0], [1], [0]],
      partitions = [\<lparr>buffer_idxs = [0, 1], partition_range = Interval 0 3\<rparr>],
      buffer_data =
        [\<lparr>section_spans = [\<lparr>section_range = Interval 0 1, span_window = Interval 0 sa\<rparr>,
                           \<lparr>section_range = Interval 2 3, span_window = Interval 0 sa\<rparr>],
          overlaps = []\<rparr>,
         \<lparr>section_spans = [\<lparr>section_range = Interval 1 2, span_window = Interval 0 sb\<rparr>],
          overlaps = []\<rparr>]\<rparr>"
  using assms
  by (simp add: Sweep_def gap_with_guest_points)
     (simp add: gap_with_guest_def sweep_eval)

text \<open>
  A guest without gaps. Buffer 0 lives in [0,10) and has the gap [3,7) without window;
  buffer 1 has no gaps and a lifespan [l,u) inside [3,7). The sweep records two spans for
  buffer 0, [0,1) before and [2,3) after the gap, and the sections {0}, {1}, {0}. After the
  second, third and fourth point, which are the start of the gap, the start and the end of
  buffer 1, buffer 0 is not in \<open>actives\<close>; the next point is the end of the gap at time 7.
  Neither buffer has an overlap entry, whatever the effective sizes are.
\<close>

lemma gap_without_window_scenario:
  assumes "3 \<le> l" and "l < u" and "u \<le> 7"
  shows "sweep_points (gap_with_guest sa l u sb) =
     [\<lparr>buffer_idx = 0, time_value = 0, point_type = kLeft, window = None\<rparr>,
      \<lparr>buffer_idx = 0, time_value = 3, point_type = kRightGap, window = None\<rparr>,
      \<lparr>buffer_idx = 1, time_value = l, point_type = kLeft, window = None\<rparr>,
      \<lparr>buffer_idx = 1, time_value = u, point_type = kRight, window = None\<rparr>,
      \<lparr>buffer_idx = 0, time_value = 7, point_type = kLeftGap, window = None\<rparr>,
      \<lparr>buffer_idx = 0, time_value = 10, point_type = kRight, window = None\<rparr>] \<and>
    map_option actives (state_after es (gap_with_guest sa l u sb) 2) = Some [] \<and>
    map_option actives (state_after es (gap_with_guest sa l u sb) 3) = Some [1] \<and>
    map_option actives (state_after es (gap_with_guest sa l u sb) 4) = Some [] \<and>
    map_option sections (Sweep es (gap_with_guest sa l u sb)) = Some [[0], [1], [0]] \<and>
    map_option (\<lambda>r. map section_spans (buffer_data r)) (Sweep es (gap_with_guest sa l u sb)) =
      Some [[\<lparr>section_range = Interval 0 1, span_window = Interval 0 sa\<rparr>,
             \<lparr>section_range = Interval 2 3, span_window = Interval 0 sa\<rparr>],
            [\<lparr>section_range = Interval 1 2, span_window = Interval 0 sb\<rparr>]] \<and>
    map_option (\<lambda>r. map overlaps (buffer_data r)) (Sweep es (gap_with_guest sa l u sb)) =
      Some [[], []]"
  using assms
  by (simp add: gap_with_guest_points gap_with_guest_states gap_with_guest_sweep)

lemma guest_with_gap_points:
  "sweep_points guest_with_gap =
     [\<lparr>buffer_idx = 0, time_value = 0, point_type = kLeft, window = None\<rparr>,
      \<lparr>buffer_idx = 0, time_value = 3, point_type = kRightGap, window = None\<rparr>,
      \<lparr>buffer_idx = 1, time_value = 3, point_type = kLeft, window = None\<rparr>,
      \<lparr>buffer_idx = 1, time_value = 5, point_type = kRightGap, window = None\<rparr>,
      \<lparr>buffer_idx = 1, time_value = 7, point_type = kRight, window = None\<rparr>,
      \<lparr>buffer_idx = 0, time_value = 7, point_type = kLeftGap, window = None\<rparr>,
      \<lparr>buffer_idx = 1, time_value = 7, point_type = kLeftGap, window = None\<rparr>,
      \<lparr>buffer_idx = 0, time_value = 10, point_type = kRight, window = None\<rparr>]"
  by (simp add: guest_with_gap_def sweep_points_def sort_points_def make_points_def
      buffer_points_def gap_points_def point_less_def upt_rec)

lemma Sweep_guest_with_gap:
  "Sweep larger_size guest_with_gap = Some
     \<lparr>sections = [[0], [1], [], [0, 1]],
      partitions = [\<lparr>buffer_idxs = [0, 1], partition_range = Interval 0 4\<rparr>],
      buffer_data =
        [\<lparr>section_spans = [\<lparr>section_range = Interval 0 1, span_window = Interval 0 4\<rparr>,
                           \<lparr>section_range = Interval 3 4, span_window = Interval 0 4\<rparr>],
          overlaps = [Overlap 1 4]\<rparr>,
         \<lparr>section_spans = [\<lparr>section_range = Interval 1 2, span_window = Interval 0 2\<rparr>],
          overlaps = [Overlap 0 4]\<rparr>]\<rparr>"
  by (simp add: Sweep_def guest_with_gap_points)
     (simp add: guest_with_gap_def larger_size_def sweep_eval)

text \<open>
  C8. Buffer 0 lives in [0,10) and has the gap [3,7) without window. The guest, buffer 1,
  lives in [3,7), inside the gap, and has itself a gap [5,7) without window; the problem of
  the two is well-formed. The two are never active together, yet the sweep records an
  overlap entry for buffer 1 on buffer 0 and one for buffer 0 on buffer 1, and its last
  section, recorded at time 10, holds buffer 1. The end of the guest's gap is sorted after
  the guest's true end (both at time 7) and after the end of the gap of buffer 0, so the
  guest is activated again, beside buffer 0, after it has ended.
\<close>

theorem guest_with_gap_overlaps:
  "well_formed guest_with_gap \<and>
   map_option (\<lambda>r. map overlaps (buffer_data r)) (Sweep larger_size guest_with_gap) =
     Some [[Overlap 1 4], [Overlap 0 4]] \<and>
   map_option sections (Sweep larger_size guest_with_gap) = Some [[0], [1], [], [0, 1]] \<and>
   sweep_points guest_with_gap ! 4 =
     \<lparr>buffer_idx = 1, time_value = 7, point_type = kRight, window = None\<rparr> \<and>
   sweep_points guest_with_gap ! 6 =
     \<lparr>buffer_idx = 1, time_value = 7, point_type = kLeftGap, window = None\<rparr>"
proof -
  have "well_formed guest_with_gap"
    by (simp add: guest_with_gap_def well_formed_def well_formed_buffer_def
        well_formed_gap_def)
  then show ?thesis by (simp add: Sweep_guest_with_gap guest_with_gap_points)
qed

section \<open>The spans of a buffer are in section order\<close>

lemma spans_below_mono: "spans_below n spans \<Longrightarrow> n \<le> m \<Longrightarrow> spans_below m spans"
  by (induction spans) (auto simp: spans_below_def)

lemma buffer_inv_grow:
  "buffer_inv n start spans \<Longrightarrow> buffer_inv (1 + n) start spans"
  by (auto simp: buffer_inv_def intro: spans_below_mono)

lemma buffer_inv_open:
  "buffer_inv n start spans \<Longrightarrow> buffer_inv n n spans"
  by (auto simp: buffer_inv_def)

lemma spans_ordered_snoc:
  "spans_ordered spans \<Longrightarrow> spans_below lo spans \<Longrightarrow> lo \<le> up \<Longrightarrow>
   spans_ordered (spans @ [\<lparr>section_range = Interval lo up, span_window = w\<rparr>])"
  by (auto simp: spans_ordered_def spans_below_def sorted_wrt_append list_all_iff)

lemma buffer_inv_close:
  "buffer_inv n start spans \<Longrightarrow> start \<noteq> - 1 \<Longrightarrow> 0 \<le> n \<Longrightarrow>
   buffer_inv n (- 1) (spans @ [\<lparr>section_range = Interval start n, span_window = w\<rparr>])"
  by (auto simp: buffer_inv_def spans_ordered_snoc) (auto simp: spans_below_def)

lemma spans_inv_init_section_time [simp]:
  "spans_inv (init_section_time p s) = spans_inv s"
  by (simp add: spans_inv_def)

lemma spans_inv_reset_window [simp]:
  "spans_inv (reset_window pb p s) = spans_inv s"
  by (simp add: spans_inv_def)

lemma spans_inv_erase_buffer [simp]:
  "spans_inv (erase_buffer p s) = spans_inv s"
  by (simp add: spans_inv_def)

lemma spans_inv_set_gap_window [simp]:
  "spans_inv (set_gap_window p s) = spans_inv s"
  by (simp add: spans_inv_def)

lemma spans_inv_insert_buffer [simp]:
  "spans_inv (insert_buffer p s) = spans_inv s"
  by (simp add: spans_inv_def)

lemma spans_inv_flush_section:
  "spans_inv s \<Longrightarrow> spans_inv (flush_section p s)"
  by (auto simp: spans_inv_def flush_section_def dest: buffer_inv_grow)

lemma spans_inv_open_partition:
  "spans_inv s \<Longrightarrow> spans_inv (open_partition p s)"
  by (auto simp: spans_inv_def open_partition_def)

lemma list_all_set_back:
  "list_all P ps \<Longrightarrow> P q \<Longrightarrow> list_all P (ps[i := q])"
  by (auto simp: list_all_iff dest: set_update_subset_insert [THEN subsetD])

lemma spans_inv_join_partition:
  "spans_inv s \<Longrightarrow> join_partition p s = Some s' \<Longrightarrow> spans_inv s'"
  by (auto simp: spans_inv_def join_partition_def push_back_idx_def list_all_iff
      split: if_splits dest!: set_update_subset_insert [THEN subsetD])

lemma spans_inv_record_overlaps:
  "spans_inv s \<Longrightarrow> spans_inv (record_overlaps es pb p s)"
  by (auto simp: spans_inv_def record_overlaps_def)

lemma spans_inv_open_span:
  assumes "spans_inv s"
  shows "spans_inv (open_span p s)"
proof (cases "isLeft p \<or> isEmptyLeftGap p \<or> isWindowedLeftGap p \<or> isWindowedRightGap p")
  case False
  with assms show ?thesis by (simp add: open_span_def)
next
  case True
  let ?n = "int (length (sections s))"
  have "buffer_inv ?n ((buffer_idx_to_section_start s)[buffer_idx p := ?n] ! i)
          (section_spans (buffer_data s ! i))"
    if "i < length (buffer_data s)" for i
    using that assms
    by (cases "i = buffer_idx p") (auto simp: spans_inv_def dest: buffer_inv_open)
  with assms True show ?thesis
    by (simp add: spans_inv_def open_span_def)
qed

lemma spans_inv_close_span:
  assumes "spans_inv s" and "close_span p s = Some s'" and "buffer_idx p < length (buffer_data s)"
  shows "spans_inv s'"
proof (cases "(isRight p \<or> isEmptyRightGap p \<or> isWindowedRightGap p \<or> isWindowedLeftGap p)
         \<and> buffer_idx_to_section_start s ! buffer_idx p \<noteq> - 1")
  case False
  with assms show ?thesis by (auto simp: close_span_def)
next
  case True
  let ?b = "buffer_idx p"
  let ?n = "int (length (sections s))"
  let ?span = "\<lparr>section_range = Interval (buffer_idx_to_section_start s ! ?b) ?n,
                 span_window = buffer_idx_to_window s ! ?b\<rparr>"
  let ?bd = "(buffer_data s)[?b := (buffer_data s ! ?b)
                \<lparr>section_spans := section_spans (buffer_data s ! ?b) @ [?span]\<rparr>]"
  let ?st = "(buffer_idx_to_section_start s)[?b := - 1]"
  from assms(1) have len: "length (buffer_idx_to_section_start s) = length (buffer_data s)"
    and li: "last_section_idx s \<le> ?n"
    and pr: "list_all (\<lambda>q. lower (partition_range q) \<le> upper (partition_range q)) (partitions s)"
    and bi: "\<And>i. i < length (buffer_data s) \<Longrightarrow>
        buffer_inv ?n (buffer_idx_to_section_start s ! i) (section_spans (buffer_data s ! i))"
    by (simp_all add: spans_inv_def)
  have bi': "buffer_inv ?n (?st ! i) (section_spans (?bd ! i))" if "i < length (buffer_data s)" for i
  proof (cases "i = ?b")
    case True
    with that len buffer_inv_close [OF bi [OF assms(3)]] \<open>_ \<and> _\<close> show ?thesis by simp
  next
    case False
    with that bi show ?thesis by simp
  qed
  from assms(2) True have fields:
    "sections s' = sections s" "buffer_data s' = ?bd" "buffer_idx_to_section_start s' = ?st"
    "last_section_idx s' \<le> ?n"
    "partitions s' = partitions s \<or>
     partitions s' = set_back_range (Interval (last_section_idx s) ?n) (partitions s)"
    using li by (auto simp: close_span_def Let_def split: if_splits)
  have "list_all (\<lambda>q. lower (partition_range q) \<le> upper (partition_range q)) (partitions s')"
    using fields(5) pr li
    by (auto simp: set_back_range_def list_all_iff dest!: set_update_subset_insert [THEN subsetD])
  with fields bi' len show ?thesis
    by (simp add: spans_inv_def)
qed

lemma spans_inv_process_point:
  assumes "spans_inv s" and "process_point es pb p s = Some s'"
  shows "spans_inv s'"
proof -
  from assms(2) obtain s5 s8 where
    inb: "in_bounds pb p s"
    and c: "close_span p (erase_buffer p (flush_section p (reset_window pb p (init_section_time p s)))) = Some s5"
    and j: "join_partition p (open_partition p (set_gap_window p s5)) = Some s8"
    and s': "s' = open_span p (insert_buffer p (record_overlaps es pb p s8))"
    by (rule process_point_SomeE)
  from inb have b: "buffer_idx p < length (buffer_data s)"
    by (simp add: in_bounds_def)
  have "spans_inv (erase_buffer p (flush_section p (reset_window pb p (init_section_time p s))))"
    using assms(1) by (simp add: spans_inv_flush_section)
  from spans_inv_close_span [OF this c] b have "spans_inv s5" by simp
  then have "spans_inv (open_partition p (set_gap_window p s5))"
    by (simp add: spans_inv_open_partition)
  from spans_inv_join_partition [OF this j] have "spans_inv s8" .
  then show ?thesis
    by (simp add: s' spans_inv_open_span spans_inv_record_overlaps)
qed

lemma spans_inv_sweep_loop:
  "spans_inv s \<Longrightarrow> sweep_loop es pb pts s = Some s' \<Longrightarrow> spans_inv s'"
  by (induction pts arbitrary: s) (auto split: option.splits dest: spans_inv_process_point)

lemma spans_inv_initial_state: "spans_inv (initial_state pb)"
  by (simp add: spans_inv_def initial_state_def buffer_inv_def spans_ordered_def spans_below_def)

lemma Sweep_spans_ordered:
  assumes "Sweep es pb = Some r"
  shows "list_all (\<lambda>bd. spans_ordered (section_spans bd)) (buffer_data r)"
    and "list_all (\<lambda>q. lower (partition_range q) \<le> upper (partition_range q)) (partitions r)"
    and "list_all (\<lambda>bd. list_all (\<lambda>a. 0 \<le> lower (section_range a) \<and>
                                       upper (section_range a) \<le> int (length (sections r)))
                            (section_spans bd)) (buffer_data r)"
proof -
  from assms obtain s where l: "sweep_loop es pb (sweep_points pb) (initial_state pb) = Some s"
    and r: "r = result_of s"
    by (auto simp: Sweep_def)
  from spans_inv_sweep_loop [OF spans_inv_initial_state l] have i: "spans_inv s" .
  then show "list_all (\<lambda>bd. spans_ordered (section_spans bd)) (buffer_data r)"
    by (auto simp: r result_of_def spans_inv_def buffer_inv_def list_all_length)
  from i show "list_all (\<lambda>q. lower (partition_range q) \<le> upper (partition_range q)) (partitions r)"
    by (simp add: r result_of_def spans_inv_def)
  from i show "list_all (\<lambda>bd. list_all (\<lambda>a. 0 \<le> lower (section_range a) \<and>
                                       upper (section_range a) \<le> int (length (sections r)))
                            (section_spans bd)) (buffer_data r)"
    by (auto simp: r result_of_def spans_inv_def buffer_inv_def spans_below_def list_all_length)
qed

text \<open>
  The result of a sweep is fit for the cut count as soon as every buffer has a span and the
  number of sections is below \<^verbatim>\<open>INT_MAX\<close>: the ranges of its spans are ranges of its
  sections.
\<close>

lemma Sweep_cuts_in_range:
  assumes "Sweep es pb = Some r"
    and "list_all (\<lambda>bd. section_spans bd \<noteq> []) (buffer_data r)"
    and "int (length (sections r)) < int_max"
  shows "list_all (cuts_in_range (length (sections r))) (buffer_data r)"
proof -
  have "cuts_in_range (length (sections r)) bd" if bd: "bd \<in> set (buffer_data r)" for bd
  proof -
    let ?lo = "lower (section_range (hd (section_spans bd)))"
    let ?up = "upper (section_range (last (section_spans bd)))"
    from assms(2) bd have ne: "section_spans bd \<noteq> []"
      by (simp add: list_all_iff)
    from Sweep_spans_ordered(3) [OF assms(1)] bd
    have b: "\<forall>a \<in> set (section_spans bd). 0 \<le> lower (section_range a) \<and>
            upper (section_range a) \<le> int (length (sections r))"
      by (simp add: list_all_iff)
    from Sweep_spans_ordered(1) [OF assms(1)] bd
    have o: "\<forall>a \<in> set (section_spans bd). lower (section_range a) \<le> upper (section_range a)"
      by (simp add: list_all_iff spans_ordered_def)
    from ne have h: "hd (section_spans bd) \<in> set (section_spans bd)"
      and l: "last (section_spans bd) \<in> set (section_spans bd)"
      by simp_all
    from b o h have lo: "0 \<le> ?lo" "?lo \<le> int (length (sections r))" by force+
    from b o l have up: "0 \<le> ?up" "?up \<le> int (length (sections r))" by force+
    from lo up assms(3) have "is_int ?lo" "is_int ?up" "?lo < int_max"
      by (simp_all add: is_int_def int_min_def int_max_def)
    with ne lo up show ?thesis by (simp add: cuts_in_range_def)
  qed
  then show ?thesis by (simp add: list_all_iff)
qed

section \<open>The points of a well-formed problem\<close>

lemma in_gap_points:
  "p \<in> set (concat (map (gap_points i) gs)) \<longleftrightarrow>
     (\<exists>g \<in> set gs.
        p = \<lparr>buffer_idx = i, time_value = lower (gap_lifespan g), point_type = kRightGap,
              window = gap_window g\<rparr> \<or>
        p = \<lparr>buffer_idx = i, time_value = upper (gap_lifespan g), point_type = kLeftGap,
              window = gap_window g\<rparr>)"
  by (auto simp: gap_points_def)

lemma in_buffer_points:
  "p \<in> set (buffer_points i b) \<longleftrightarrow>
     p = \<lparr>buffer_idx = i, time_value = lower (lifespan b), point_type = kLeft, window = None\<rparr> \<or>
     p = \<lparr>buffer_idx = i, time_value = upper (lifespan b), point_type = kRight, window = None\<rparr> \<or>
     (\<exists>g \<in> set (gaps b).
        p = \<lparr>buffer_idx = i, time_value = lower (gap_lifespan g), point_type = kRightGap,
              window = gap_window g\<rparr> \<or>
        p = \<lparr>buffer_idx = i, time_value = upper (gap_lifespan g), point_type = kLeftGap,
              window = gap_window g\<rparr>)"
  by (auto simp: buffer_points_def gap_points_def)

lemma in_make_points:
  "p \<in> set (make_points pb) \<longleftrightarrow>
     buffer_idx p < length (buffers pb) \<and>
     p \<in> set (buffer_points (buffer_idx p) (buffers pb ! buffer_idx p))"
  by (auto simp: make_points_def in_buffer_points)

lemma set_sweep_points: "set (sweep_points pb) = set (make_points pb)"
  using mset_sweep_points [of pb] by (metis set_mset_mset)

lemma sorted_wrt_pair:
  "sorted_wrt P xs \<Longrightarrow> x \<in> set xs \<Longrightarrow> y \<in> set xs \<Longrightarrow> x = y \<or> P x y \<or> P y x"
  by (induction xs) auto

lemma gaps_apart:
  assumes "well_formed_buffer b" and "g \<in> set (gaps b)" and "h \<in> set (gaps b)"
  shows "g = h \<or> upper (gap_lifespan g) \<le> lower (gap_lifespan h)
           \<or> upper (gap_lifespan h) \<le> lower (gap_lifespan g)"
  using assms sorted_wrt_pair [of _ "gaps b" g h]
  by (auto simp: well_formed_buffer_def)

lemma gap_bounds:
  assumes "well_formed_buffer b" and "g \<in> set (gaps b)"
  shows "lower (lifespan b) \<le> lower (gap_lifespan g)"
    "lower (gap_lifespan g) < upper (gap_lifespan g)"
    "upper (gap_lifespan g) \<le> upper (lifespan b)"
  using assms by (auto simp: well_formed_buffer_def well_formed_gap_def list_all_iff)

text \<open>What is known of a point of a well-formed buffer.\<close>

lemma buffer_point_facts:
  assumes "well_formed_buffer b" and "p \<in> set (buffer_points i b)"
  shows "buffer_idx p = i"
    and "0 \<le> time_value p"
    and "lower (lifespan b) \<le> time_value p"
    and "time_value p \<le> upper (lifespan b)"
    and "point_type p = kLeft \<Longrightarrow>
           p = \<lparr>buffer_idx = i, time_value = lower (lifespan b), point_type = kLeft, window = None\<rparr>"
    and "point_type p = kRight \<Longrightarrow> time_value p = upper (lifespan b)"
    and "point_type p = kLeftGap \<Longrightarrow> lower (lifespan b) < time_value p"
    and "point_type p = kRightGap \<Longrightarrow> time_value p < upper (lifespan b)"
proof -
  from assms(1) have l: "0 \<le> lower (lifespan b)" "lower (lifespan b) < upper (lifespan b)"
    by (simp_all add: well_formed_buffer_def)
  from assms(2) consider
      "p = \<lparr>buffer_idx = i, time_value = lower (lifespan b), point_type = kLeft, window = None\<rparr>"
    | "p = \<lparr>buffer_idx = i, time_value = upper (lifespan b), point_type = kRight, window = None\<rparr>"
    | g where "g \<in> set (gaps b)"
        "p = \<lparr>buffer_idx = i, time_value = lower (gap_lifespan g), point_type = kRightGap,
              window = gap_window g\<rparr>"
    | g where "g \<in> set (gaps b)"
        "p = \<lparr>buffer_idx = i, time_value = upper (gap_lifespan g), point_type = kLeftGap,
              window = gap_window g\<rparr>"
    by (auto simp: in_buffer_points)
  then have "buffer_idx p = i \<and> 0 \<le> time_value p \<and> lower (lifespan b) \<le> time_value p \<and>
      time_value p \<le> upper (lifespan b) \<and>
      (point_type p = kLeft \<longrightarrow>
         p = \<lparr>buffer_idx = i, time_value = lower (lifespan b), point_type = kLeft, window = None\<rparr>) \<and>
      (point_type p = kRight \<longrightarrow> time_value p = upper (lifespan b)) \<and>
      (point_type p = kLeftGap \<longrightarrow> lower (lifespan b) < time_value p) \<and>
      (point_type p = kRightGap \<longrightarrow> time_value p < upper (lifespan b))"
  proof cases
    case 1
    with l show ?thesis by simp
  next
    case 2
    with l show ?thesis by simp
  next
    case (3 g)
    with l gap_bounds [OF assms(1) 3(1)] show ?thesis by simp
  next
    case (4 g)
    with l gap_bounds [OF assms(1) 4(1)] show ?thesis by simp
  qed
  then show "buffer_idx p = i"
    and "0 \<le> time_value p"
    and "lower (lifespan b) \<le> time_value p"
    and "time_value p \<le> upper (lifespan b)"
    and "point_type p = kLeft \<Longrightarrow>
           p = \<lparr>buffer_idx = i, time_value = lower (lifespan b), point_type = kLeft, window = None\<rparr>"
    and "point_type p = kRight \<Longrightarrow> time_value p = upper (lifespan b)"
    and "point_type p = kLeftGap \<Longrightarrow> lower (lifespan b) < time_value p"
    and "point_type p = kRightGap \<Longrightarrow> time_value p < upper (lifespan b)"
    by simp_all
qed

lemma same_gap_start:
  assumes "well_formed_buffer b" and "p \<in> set (buffer_points i b)" and "q \<in> set (buffer_points i b)"
    and "point_type p = kRightGap" and "point_type q = kRightGap"
    and "time_value p = time_value q"
  shows "p = q"
proof -
  from assms(2,4) obtain g where g: "g \<in> set (gaps b)"
    and p: "p = \<lparr>buffer_idx = i, time_value = lower (gap_lifespan g), point_type = kRightGap,
              window = gap_window g\<rparr>"
    by (auto simp: in_buffer_points)
  from assms(3,5) obtain h where h: "h \<in> set (gaps b)"
    and q: "q = \<lparr>buffer_idx = i, time_value = lower (gap_lifespan h), point_type = kRightGap,
              window = gap_window h\<rparr>"
    by (auto simp: in_buffer_points)
  from assms(6) p q have "lower (gap_lifespan g) = lower (gap_lifespan h)" by simp
  with gaps_apart [OF assms(1) g h] gap_bounds(2) [OF assms(1) g] gap_bounds(2) [OF assms(1) h]
  have "g = h" by auto
  with p q show ?thesis by simp
qed

lemma same_gap_end:
  assumes "well_formed_buffer b" and "p \<in> set (buffer_points i b)" and "q \<in> set (buffer_points i b)"
    and "point_type p = kLeftGap" and "point_type q = kLeftGap"
    and "time_value p = time_value q"
  shows "p = q"
proof -
  from assms(2,4) obtain g where g: "g \<in> set (gaps b)"
    and p: "p = \<lparr>buffer_idx = i, time_value = upper (gap_lifespan g), point_type = kLeftGap,
              window = gap_window g\<rparr>"
    by (auto simp: in_buffer_points)
  from assms(3,5) obtain h where h: "h \<in> set (gaps b)"
    and q: "q = \<lparr>buffer_idx = i, time_value = upper (gap_lifespan h), point_type = kLeftGap,
              window = gap_window h\<rparr>"
    by (auto simp: in_buffer_points)
  from assms(6) p q have "upper (gap_lifespan g) = upper (gap_lifespan h)" by simp
  with gaps_apart [OF assms(1) g h] gap_bounds(2) [OF assms(1) g] gap_bounds(2) [OF assms(1) h]
  have "g = h" by auto
  with p q show ?thesis by simp
qed

lemma windowed_gaps_not_adjacent:
  assumes "windows_apart b" and "p \<in> set (buffer_points i b)" and "q \<in> set (buffer_points i b)"
    and "point_type p = kRightGap" and "window p \<noteq> None"
    and "point_type q = kLeftGap" and "window q \<noteq> None"
  shows "time_value p \<noteq> time_value q"
proof -
  from assms(2,4) obtain g where g: "g \<in> set (gaps b)"
    and p: "p = \<lparr>buffer_idx = i, time_value = lower (gap_lifespan g), point_type = kRightGap,
              window = gap_window g\<rparr>"
    by (auto simp: in_buffer_points)
  from assms(3,6) obtain h where h: "h \<in> set (gaps b)"
    and q: "q = \<lparr>buffer_idx = i, time_value = upper (gap_lifespan h), point_type = kLeftGap,
              window = gap_window h\<rparr>"
    by (auto simp: in_buffer_points)
  from assms(1) g h
  have "gap_window h = None \<or> gap_window g = None
          \<or> upper (gap_lifespan h) \<noteq> lower (gap_lifespan g)"
    unfolding windows_apart_def list_all_iff by blast
  with assms(5,7) p q show ?thesis by auto
qed

lemma distinct_concat_map:
  assumes "distinct xs"
    and "\<And>x. x \<in> set xs \<Longrightarrow> distinct (f x)"
    and "\<And>x y. x \<in> set xs \<Longrightarrow> y \<in> set xs \<Longrightarrow> x \<noteq> y \<Longrightarrow> set (f x) \<inter> set (f y) = {}"
  shows "distinct (concat (map f xs))"
  using assms
proof (induction xs)
  case Nil
  then show ?case by simp
next
  case (Cons x xs)
  have "set (f x) \<inter> set (f y) = {}" if "y \<in> set xs" for y
    using Cons.prems(1) that by (intro Cons.prems(3)) auto
  with Cons show ?case by (auto simp: disjoint_iff)
qed

lemma distinct_gaps:
  assumes "well_formed_buffer b"
  shows "distinct (gaps b)"
proof -
  have "sorted_wrt P xs \<Longrightarrow> (\<And>x. x \<in> set xs \<Longrightarrow> \<not> P x x) \<Longrightarrow> distinct xs"
    for P :: "Gap \<Rightarrow> Gap \<Rightarrow> bool" and xs
    by (induction xs) auto
  from this [of "\<lambda>g h. upper (gap_lifespan g) \<le> lower (gap_lifespan h)" "gaps b"]
  show ?thesis
    using assms gap_bounds(2) [OF assms]
    by (simp add: well_formed_buffer_def) force
qed

lemma distinct_buffer_points:
  assumes "well_formed_buffer b"
  shows "distinct (buffer_points i b)"
proof -
  have d: "distinct (gap_points i g)" for g
    by (simp add: gap_points_def)
  have x: "set (gap_points i g) \<inter> set (gap_points i h) = {}"
    if "g \<in> set (gaps b)" "h \<in> set (gaps b)" "g \<noteq> h" for g h
    using gaps_apart [OF assms that(1,2)] that(3)
      gap_bounds(2) [OF assms that(1)] gap_bounds(2) [OF assms that(2)]
    by (auto simp: gap_points_def)
  have "distinct (concat (map (gap_points i) (gaps b)))"
    by (rule distinct_concat_map [OF distinct_gaps [OF assms] d x])
  then show ?thesis
    by (auto simp: buffer_points_def gap_points_def)
qed

lemma distinct_make_points:
  assumes "well_formed pb"
  shows "distinct (make_points pb)"
  unfolding make_points_def
proof (rule distinct_concat_map)
  show "distinct [0..<length (buffers pb)]" by simp
  show "distinct (buffer_points i (buffers pb ! i))" if "i \<in> set [0..<length (buffers pb)]" for i
    using that assms by (intro distinct_buffer_points) (simp add: well_formed_def list_all_length)
  show "set (buffer_points i (buffers pb ! i)) \<inter> set (buffer_points j (buffers pb ! j)) = {}"
    if "i \<noteq> j" for i j
    using that by (auto simp: in_buffer_points)
qed

lemma distinct_sweep_points:
  "well_formed pb \<Longrightarrow> distinct (sweep_points pb)"
  using mset_sweep_points [of pb] distinct_make_points [of pb]
  by (metis mset_eq_imp_distinct_iff)

lemma sweep_point_buffer:
  assumes "well_formed pb" and "p \<in> set (sweep_points pb)"
  shows "buffer_idx p < length (buffers pb)"
    and "well_formed_buffer (buffers pb ! buffer_idx p)"
    and "p \<in> set (buffer_points (buffer_idx p) (buffers pb ! buffer_idx p))"
  using assms
  by (simp_all add: set_sweep_points in_make_points well_formed_def list_all_length)

text \<open>
  For a well-formed problem no two generated points compare equivalent, so the sorted
  sequence is determined: every sorted arrangement of the generated points is this one,
  whatever \<open>std::sort\<close> does with equivalent elements.
\<close>

lemma event_le_antisym:
  assumes wf: "well_formed pb"
    and p: "p \<in> set (make_points pb)" and q: "q \<in> set (make_points pb)"
    and pq: "event_le p q" and qp: "event_le q p"
  shows "p = q"
proof -
  from pq qp have t: "time_value p = time_value q" and i: "buffer_idx p = buffer_idx q"
    and r: "event_tier p = event_tier q"
    by (auto simp: event_le_def)
  from r have k: "point_type p = point_type q"
    by (simp add: event_tier_def tier_rank rank_inj)
  let ?i = "buffer_idx p"
  let ?b = "buffers pb ! ?i"
  from p have pp: "p \<in> set (sweep_points pb)" by (simp add: set_sweep_points)
  from q have qq: "q \<in> set (sweep_points pb)" by (simp add: set_sweep_points)
  note pb = sweep_point_buffer [OF wf pp]
  from sweep_point_buffer(3) [OF wf qq] i have qb: "q \<in> set (buffer_points ?i ?b)" by simp
  show ?thesis
  proof (cases "point_type p")
    case kRightGap
    with k same_gap_start [OF pb(2,3) qb _ _ t] show ?thesis by simp
  next
    case kLeftGap
    with k same_gap_end [OF pb(2,3) qb _ _ t] show ?thesis by simp
  next
    case kLeft
    with k buffer_point_facts(5) [OF pb(2,3)] buffer_point_facts(5) [OF pb(2) qb]
    show ?thesis by simp
  next
    case kRight
    have r: "x = \<lparr>buffer_idx = ?i, time_value = upper (lifespan ?b), point_type = kRight,
               window = None\<rparr>"
      if "x \<in> set (buffer_points ?i ?b)" "point_type x = kRight" for x
      using that unfolding in_buffer_points by auto
    from kRight k r [OF pb(3)] r [OF qb] show ?thesis by simp
  qed
qed

lemma sorted_wrt_unique:
  assumes "sorted_wrt R xs" and "sorted_wrt R ys" and "mset xs = mset ys"
    and "\<And>x y. x \<in> set xs \<Longrightarrow> y \<in> set xs \<Longrightarrow> R x y \<Longrightarrow> R y x \<Longrightarrow> x = y"
  shows "xs = ys"
  using assms
proof (induction xs arbitrary: ys)
  case Nil
  then show ?case by simp
next
  case (Cons x xs)
  from Cons.prems(3) obtain y ys' where ys: "ys = y # ys'"
    by (cases ys) auto
  have s: "set (x # xs) = set (y # ys')"
    using Cons.prems(3) ys by (metis set_mset_mset)
  have "x = y"
  proof (rule ccontr)
    assume n: "x \<noteq> y"
    with s have m: "x \<in> set ys'" "y \<in> set xs" by auto
    with Cons.prems(1,2) ys have "R y x" "R x y" by auto
    with Cons.prems(4) [of x y] m(2) n show False by simp
  qed
  moreover from this Cons.prems(3) ys have "mset xs = mset ys'" by simp
  moreover from Cons.prems(1,2) ys have "sorted_wrt R xs" "sorted_wrt R ys'" by simp_all
  ultimately show ?case
    using Cons.IH [of ys'] Cons.prems(4) ys by auto
qed

lemma sweep_points_unique:
  assumes "well_formed pb" and "mset ps = mset (make_points pb)" and "sorted_wrt event_le ps"
  shows "ps = sweep_points pb"
proof (rule sorted_wrt_unique [OF assms(3)])
  show "sorted_wrt event_le (sweep_points pb)"
    and "mset ps = mset (sweep_points pb)"
    using sorted_sweep_points [of pb] mset_sweep_points [of pb] assms(2) by simp_all
  fix x y
  assume "x \<in> set ps" "y \<in> set ps" "event_le x y" "event_le y x"
  moreover have "set ps = set (make_points pb)"
    using assms(2) by (metis set_mset_mset)
  ultimately show "x = y"
    using event_le_antisym [OF assms(1)] by simp
qed

text \<open>Splitting the sorted sequence at a point.\<close>

lemma split_sorted:
  assumes "sweep_points pb = pre @ c # post" and "well_formed pb"
  shows "\<And>e. e \<in> set pre \<Longrightarrow> event_le e c \<and> e \<noteq> c"
    and "\<And>x. x \<in> set post \<Longrightarrow> event_le c x \<and> x \<noteq> c"
    and "c \<in> set (sweep_points pb)"
    and "set pre \<subseteq> set (sweep_points pb)"
    and "set post \<subseteq> set (sweep_points pb)"
proof -
  from sorted_sweep_points [of pb] assms(1)
  have s: "sorted_wrt event_le (pre @ c # post)" by simp
  from distinct_sweep_points [OF assms(2)] assms(1)
  have d: "distinct (pre @ c # post)" by simp
  show "\<And>e. e \<in> set pre \<Longrightarrow> event_le e c \<and> e \<noteq> c"
    using s d by (auto simp: sorted_wrt_append)
  show "\<And>x. x \<in> set post \<Longrightarrow> event_le c x \<and> x \<noteq> c"
    using s d by (auto simp: sorted_wrt_append)
  show "c \<in> set (sweep_points pb)" "set pre \<subseteq> set (sweep_points pb)"
    "set post \<subseteq> set (sweep_points pb)"
    using assms(1) by auto
qed

lemma opens_cases:
  "opens e \<longleftrightarrow> point_type e = kLeft \<or> point_type e = kLeftGap
      \<or> (point_type e = kRightGap \<and> window e \<noteq> None)"
  by (cases "point_type e")
     (auto simp: opens_def isLeft_def isEmptyLeftGap_def isWindowedLeftGap_def
        isWindowedRightGap_def)

lemma closes_cases:
  "closes c \<longleftrightarrow> point_type c = kRight \<or> point_type c = kRightGap
      \<or> (point_type c = kLeftGap \<and> window c \<noteq> None)"
  by (cases "point_type c")
     (auto simp: closes_def isRight_def isEmptyRightGap_def isWindowedLeftGap_def
        isWindowedRightGap_def)

lemma left_before_close:
  assumes wf: "well_formed pb" and sp: "sweep_points pb = pre @ c # post"
    and e: "e \<in> set pre" "buffer_idx e = buffer_idx c" "opens e" and c: "closes c"
  shows "\<exists>l \<in> set pre. isLeft l \<and> buffer_idx l = buffer_idx c"
proof (rule ccontr)
  assume no: "\<not> (\<exists>l \<in> set pre. isLeft l \<and> buffer_idx l = buffer_idx c)"
  let ?i = "buffer_idx c"
  let ?b = "buffers pb ! ?i"
  let ?l = "\<lparr>buffer_idx = ?i, time_value = lower (lifespan ?b), point_type = kLeft,
              window = None\<rparr>"
  note ss = split_sorted [OF sp wf]
  note cb = sweep_point_buffer [OF wf ss(3)]
  from ss(4) e(1) have "e \<in> set (sweep_points pb)" by auto
  from sweep_point_buffer [OF wf this] e(2)
  have eb: "e \<in> set (buffer_points ?i ?b)" by simp
  note ef = buffer_point_facts [OF cb(2) eb]
  note cf = buffer_point_facts [OF cb(2) cb(3)]
  from cb(2) have lu: "lower (lifespan ?b) < upper (lifespan ?b)"
    by (simp add: well_formed_buffer_def)
  have "?l \<in> set (sweep_points pb)"
    using cb(1) by (simp add: set_sweep_points in_make_points in_buffer_points)
  moreover from no have "?l \<notin> set pre" by (auto simp: isLeft_def)
  moreover have "?l \<noteq> c"
  proof
    assume "?l = c"
    then have "point_type c = point_type ?l" by simp
    with c show False by (simp add: closes_cases)
  qed
  ultimately have "?l \<in> set post" using sp by auto
  with ss(2) have cl: "event_le c ?l" by blast
  from ss(1) e(1) have ec: "event_le e c" "e \<noteq> c" by blast+
  from ef(5) no e(1) have ek: "point_type e \<noteq> kLeft"
    by (auto simp: isLeft_def)
  from cl ef(3) ec(1) cf(3) have t: "time_value e = lower (lifespan ?b)"
      "time_value c = lower (lifespan ?b)"
    by (auto simp: event_le_def)
  from t(1) ef(7) have "point_type e \<noteq> kLeftGap" by auto
  with ek e(3) have er: "point_type e = kRightGap" by (auto simp: opens_cases)
  from t(2) cf(6) lu have "point_type c \<noteq> kRight" by auto
  moreover from cl t(2) have "point_type c \<noteq> kLeftGap"
    by (auto simp: event_le_def event_tier_def)
  ultimately have "point_type c = kRightGap" using c by (auto simp: closes_cases)
  from same_gap_start [OF cb(2) eb cb(3) er this] t ec(2) show False by simp
qed

lemma open_strictly_before_close:
  assumes wf: "well_formed pb" and sp: "sweep_points pb = pre @ c # post"
    and e: "e \<in> set pre" "buffer_idx e = buffer_idx c" "opens e" and c: "closes c"
    and ap: "windows_apart (buffers pb ! buffer_idx c)"
  shows "time_value e < time_value c"
proof (rule ccontr)
  assume "\<not> time_value e < time_value c"
  let ?i = "buffer_idx c"
  let ?b = "buffers pb ! ?i"
  note ss = split_sorted [OF sp wf]
  note cb = sweep_point_buffer [OF wf ss(3)]
  from ss(4) e(1) have "e \<in> set (sweep_points pb)" by auto
  from sweep_point_buffer [OF wf this] e(2)
  have eb: "e \<in> set (buffer_points ?i ?b)" by simp
  note ef = buffer_point_facts [OF cb(2) eb]
  note cf = buffer_point_facts [OF cb(2) cb(3)]
  from ss(1) e(1) have ec: "event_le e c" "e \<noteq> c" by blast+
  with \<open>\<not> time_value e < time_value c\<close> have t: "time_value e = time_value c"
    and tr: "event_tier e \<le> event_tier c"
    by (auto simp: event_le_def)
  from e(3) consider "point_type e = kLeft" | "point_type e = kLeftGap"
    | "point_type e = kRightGap" "window e \<noteq> None"
    by (auto simp: opens_cases)
  then show False
  proof cases
    case 1
    with tr c have "point_type c = kLeftGap"
      by (cases "point_type c") (auto simp: event_tier_def closes_cases)
    with cf(7) t ef(5) [OF 1] show False by (cases e) auto
  next
    case 2
    with tr c have "point_type c = kLeftGap"
      by (cases "point_type c") (auto simp: event_tier_def closes_cases)
    from same_gap_end [OF cb(2) eb cb(3) 2 this t] ec(2) show False by simp
  next
    case 3
    from c consider "point_type c = kRight" | "point_type c = kRightGap"
      | "point_type c = kLeftGap" "window c \<noteq> None"
      by (auto simp: closes_cases)
    then show False
    proof cases
      case 1
      with cf(6) ef(8) [OF 3(1)] t show False by simp
    next
      case 2
      from same_gap_start [OF cb(2) eb cb(3) 3(1) 2 t] ec(2) show False by simp
    next
      case 3
      from windowed_gaps_not_adjacent [OF ap eb cb(3) \<open>point_type e = kRightGap\<close>
          \<open>window e \<noteq> None\<close> 3] t
      show False by simp
    qed
  qed
qed

section \<open>One iteration, field by field\<close>

lemma close_span_summary:
  assumes "close_span p s = Some s'"
  shows "buffer_idx_to_section_start s' =
           (if closes p \<and> buffer_idx_to_section_start s ! buffer_idx p \<noteq> - 1
            then (buffer_idx_to_section_start s)[buffer_idx p := - 1]
            else buffer_idx_to_section_start s)"
    and "buffer_data s' =
           (if closes p \<and> buffer_idx_to_section_start s ! buffer_idx p \<noteq> - 1
            then (buffer_data s)[buffer_idx p := (buffer_data s ! buffer_idx p)
                   \<lparr>section_spans := section_spans (buffer_data s ! buffer_idx p) @
                      [\<lparr>section_range = Interval (buffer_idx_to_section_start s ! buffer_idx p)
                                                 (int (length (sections s))),
                        span_window = buffer_idx_to_window s ! buffer_idx p\<rparr>]\<rparr>]
            else buffer_data s)"
    and "partitions s \<noteq> [] \<Longrightarrow> partitions s' \<noteq> []"
    and "\<not> closes p \<Longrightarrow> s' = s"
  using assms
  by (auto simp: close_span_def closes_def Let_def set_back_range_def split: if_splits)

lemma close_span_defined:
  assumes "closes p \<Longrightarrow> buffer_idx_to_section_start s ! buffer_idx p \<noteq> - 1 \<Longrightarrow> partitions s \<noteq> []"
  shows "\<exists>s'. close_span p s = Some s'"
  using assms by (auto simp: close_span_def closes_def Let_def)

lemma process_point_defined:
  assumes "in_bounds pb p s"
    and "closes p \<Longrightarrow> buffer_idx_to_section_start s ! buffer_idx p \<noteq> - 1 \<Longrightarrow> partitions s \<noteq> []"
    and "isLeft p \<Longrightarrow> alive s \<noteq> [] \<Longrightarrow> partitions s \<noteq> []"
  shows "\<exists>s'. process_point es pb p s = Some s'"
proof -
  let ?s4 = "erase_buffer p (flush_section p (reset_window pb p (init_section_time p s)))"
  from assms(2) have "\<exists>s5. close_span p ?s4 = Some s5"
    by (intro close_span_defined) simp_all
  then obtain s5 where c: "close_span p ?s4 = Some s5" ..
  have "\<exists>s8. join_partition p (open_partition p (set_gap_window p s5)) = Some s8"
  proof (cases "isLeft p")
    case False
    then show ?thesis by (simp add: join_partition_def)
  next
    case True
    then have "\<not> closes p"
      by (auto simp: closes_def isLeft_def isRight_def isEmptyRightGap_def
          isWindowedRightGap_def isWindowedLeftGap_def)
    with c have "s5 = ?s4" by (simp add: close_span_summary(4))
    moreover from True have "alive ?s4 = alive s"
      by (simp add: erase_buffer_def isLeft_def isRight_def isEmptyRightGap_def)
    ultimately show ?thesis using assms(3) True
      by (auto simp: join_partition_def open_partition_def)
  qed
  with c assms(1) show ?thesis
    by (auto simp: process_point_def)
qed

lemma process_point_last_section_time:
  assumes "process_point es pb p s = Some s'"
  shows "last_section_time s' = last_section_time (flush_section p (init_section_time p s))"
proof -
  let ?s4 = "erase_buffer p (flush_section p (reset_window pb p (init_section_time p s)))"
  from assms obtain s5 s8 where
    c: "close_span p ?s4 = Some s5"
    and j: "join_partition p (open_partition p (set_gap_window p s5)) = Some s8"
    and s': "s' = open_span p (insert_buffer p (record_overlaps es pb p s8))"
    by (rule process_point_SomeE)
  have "last_section_time s' = last_section_time s8" by (simp add: s')
  also have "\<dots> = last_section_time s5" by (simp add: join_partition_fields [OF j])
  also have "\<dots> = last_section_time ?s4" by (simp add: close_span_fields [OF c])
  also have "\<dots> = last_section_time (flush_section p (init_section_time p s))"
    by (simp add: flush_section_def reset_window_def)
  finally show ?thesis .
qed

lemma process_point_section_start:
  assumes "process_point es pb p s = Some s'"
  shows "buffer_idx_to_section_start s' =
           (if opens p
            then (if closes p \<and> buffer_idx_to_section_start s ! buffer_idx p \<noteq> - 1
                  then (buffer_idx_to_section_start s)[buffer_idx p := - 1]
                  else buffer_idx_to_section_start s)[buffer_idx p := int (length (sections s'))]
            else (if closes p \<and> buffer_idx_to_section_start s ! buffer_idx p \<noteq> - 1
                  then (buffer_idx_to_section_start s)[buffer_idx p := - 1]
                  else buffer_idx_to_section_start s))"
proof -
  let ?s4 = "erase_buffer p (flush_section p (reset_window pb p (init_section_time p s)))"
  let ?x = "if closes p \<and> buffer_idx_to_section_start s ! buffer_idx p \<noteq> - 1
            then (buffer_idx_to_section_start s)[buffer_idx p := - 1]
            else buffer_idx_to_section_start s"
  from assms obtain s5 s8 where
    c: "close_span p ?s4 = Some s5"
    and j: "join_partition p (open_partition p (set_gap_window p s5)) = Some s8"
    and s': "s' = open_span p (insert_buffer p (record_overlaps es pb p s8))"
    by (rule process_point_SomeE)
  let ?s9 = "insert_buffer p (record_overlaps es pb p s8)"
  have "buffer_idx_to_section_start s5 = ?x"
    using close_span_summary(1) [OF c] by simp
  then have "buffer_idx_to_section_start s8 = ?x"
    by (simp add: join_partition_fields [OF j])
  then have x: "buffer_idx_to_section_start ?s9 = ?x" by simp
  have n: "sections ?s9 = sections s'" by (simp add: s')
  have "buffer_idx_to_section_start (open_span p ?s9) =
      (if opens p then (buffer_idx_to_section_start ?s9)[buffer_idx p := int (length (sections ?s9))]
       else buffer_idx_to_section_start ?s9)"
    by (simp add: open_span_def opens_def)
  then show ?thesis
    unfolding x n s' [symmetric] by simp
qed

lemma process_point_lengths:
  assumes "process_point es pb p s = Some s'"
  shows "length (buffer_data s') = length (buffer_data s)"
    and "length (buffer_idx_to_window s') = length (buffer_idx_to_window s)"
    and "length (buffer_idx_to_section_start s') = length (buffer_idx_to_section_start s)"
proof -
  let ?s4 = "erase_buffer p (flush_section p (reset_window pb p (init_section_time p s)))"
  from assms obtain s5 s8 where
    c: "close_span p ?s4 = Some s5"
    and j: "join_partition p (open_partition p (set_gap_window p s5)) = Some s8"
    and s': "s' = open_span p (insert_buffer p (record_overlaps es pb p s8))"
    by (rule process_point_SomeE)
  have "length (buffer_data s5) = length (buffer_data s)"
    using close_span_summary(2) [OF c] by simp
  then have "length (buffer_data s8) = length (buffer_data s)"
    by (simp add: join_partition_fields [OF j])
  then show "length (buffer_data s') = length (buffer_data s)"
    by (simp add: s' record_overlaps_def)
  have "length (buffer_idx_to_window s5) = length (buffer_idx_to_window s)"
    by (simp add: close_span_fields [OF c] reset_window_def)
  then have "length (buffer_idx_to_window s8) = length (buffer_idx_to_window s)"
    by (simp add: join_partition_fields [OF j] set_gap_window_def)
  then show "length (buffer_idx_to_window s') = length (buffer_idx_to_window s)"
    by (simp add: s')
  show "length (buffer_idx_to_section_start s') = length (buffer_idx_to_section_start s)"
    by (simp add: process_point_section_start [OF assms])
qed

lemma process_point_actives:
  assumes "process_point es pb p s = Some s'"
  shows "set (actives s') \<subseteq> insert (buffer_idx p) (set (actives s))"
proof -
  let ?s4 = "erase_buffer p (flush_section p (reset_window pb p (init_section_time p s)))"
  from assms obtain s5 s8 where
    c: "close_span p ?s4 = Some s5"
    and j: "join_partition p (open_partition p (set_gap_window p s5)) = Some s8"
    and s': "s' = open_span p (insert_buffer p (record_overlaps es pb p s8))"
    by (rule process_point_SomeE)
  have "set (actives ?s4) \<subseteq> set (actives s)"
    by (auto simp: erase_buffer_def Let_def set_btree_erase_idx)
  then have "set (actives s8) \<subseteq> set (actives s)"
    by (simp add: join_partition_fields [OF j] close_span_fields [OF c])
  moreover have "set (actives s') \<subseteq> insert (buffer_idx p) (set (actives s8))"
    by (auto simp: s' insert_buffer_def Let_def set_btree_insert_idx)
  ultimately show ?thesis by blast
qed

lemma process_point_alive:
  assumes "process_point es pb p s = Some s'" and "alive s' \<noteq> []"
  shows "isLeft p \<or> alive s \<noteq> []"
proof -
  let ?s4 = "erase_buffer p (flush_section p (reset_window pb p (init_section_time p s)))"
  from assms(1) obtain s5 s8 where
    c: "close_span p ?s4 = Some s5"
    and j: "join_partition p (open_partition p (set_gap_window p s5)) = Some s8"
    and s': "s' = open_span p (insert_buffer p (record_overlaps es pb p s8))"
    by (rule process_point_SomeE)
  have "alive s = [] \<Longrightarrow> alive ?s4 = []"
    by (simp add: erase_buffer_def Let_def btree_erase_def)
  then have "alive s = [] \<Longrightarrow> alive s8 = []"
    by (simp add: join_partition_fields [OF j] close_span_fields [OF c])
  moreover have "\<not> isLeft p \<Longrightarrow> alive s' = alive s8"
    by (simp add: s' insert_buffer_def Let_def)
  ultimately show ?thesis using assms(2) by auto
qed

lemma process_point_partitions:
  assumes "process_point es pb p s = Some s'"
  shows "partitions s \<noteq> [] \<Longrightarrow> partitions s' \<noteq> []"
    and "isLeft p \<Longrightarrow> partitions s' \<noteq> []"
proof -
  let ?s4 = "erase_buffer p (flush_section p (reset_window pb p (init_section_time p s)))"
  from assms obtain s5 s8 where
    c: "close_span p ?s4 = Some s5"
    and j: "join_partition p (open_partition p (set_gap_window p s5)) = Some s8"
    and s': "s' = open_span p (insert_buffer p (record_overlaps es pb p s8))"
    by (rule process_point_SomeE)
  have p8: "partitions s' = partitions s8" by (simp add: s')
  have p5: "partitions s \<noteq> [] \<Longrightarrow> partitions s5 \<noteq> []"
    using close_span_summary(3) [OF c] by simp
  have "partitions s5 \<noteq> [] \<Longrightarrow> partitions (open_partition p (set_gap_window p s5)) \<noteq> []"
    by (simp add: open_partition_def)
  moreover have "partitions s8 \<noteq> []"
    if "partitions (open_partition p (set_gap_window p s5)) \<noteq> []"
    using j that by (auto simp: join_partition_def push_back_idx_def split: if_splits)
  ultimately show "partitions s \<noteq> [] \<Longrightarrow> partitions s' \<noteq> []"
    using p5 p8 by simp
  show "isLeft p \<Longrightarrow> partitions s' \<noteq> []"
    using j p8 by (auto simp: join_partition_def push_back_idx_def split: if_splits)
qed

lemma process_point_spans:
  assumes "process_point es pb p s = Some s'" and "i < length (buffer_data s)"
  shows "\<exists>w. section_spans (buffer_data s' ! i) =
           (if i = buffer_idx p \<and> closes p \<and> buffer_idx_to_section_start s ! buffer_idx p \<noteq> - 1
            then section_spans (buffer_data s ! i) @
                   [\<lparr>section_range = Interval (buffer_idx_to_section_start s ! buffer_idx p)
                                              (int (length (sections s'))),
                     span_window = w\<rparr>]
            else section_spans (buffer_data s ! i))"
proof -
  let ?s4 = "erase_buffer p (flush_section p (reset_window pb p (init_section_time p s)))"
  from assms(1) obtain s5 s8 where
    c: "close_span p ?s4 = Some s5"
    and j: "join_partition p (open_partition p (set_gap_window p s5)) = Some s8"
    and s': "s' = open_span p (insert_buffer p (record_overlaps es pb p s8))"
    by (rule process_point_SomeE)
  note cs = close_span_summary [OF c]
  note jf = join_partition_fields [OF j]
  have sec: "sections ?s4 = sections s'"
    by (simp add: process_point_sections [OF assms(1)] flush_section_def)
  have "section_spans (buffer_data s' ! i) = section_spans (buffer_data s5 ! i)"
    by (simp add: s' record_overlaps_def jf)
  also have "\<exists>w. section_spans (buffer_data s5 ! i) =
           (if i = buffer_idx p \<and> closes p \<and> buffer_idx_to_section_start s ! buffer_idx p \<noteq> - 1
            then section_spans (buffer_data s ! i) @
                   [\<lparr>section_range = Interval (buffer_idx_to_section_start s ! buffer_idx p)
                                              (int (length (sections s'))),
                     span_window = w\<rparr>]
            else section_spans (buffer_data s ! i))"
    using assms(2) by (auto simp: cs(2) sec [symmetric] nth_list_update)
  finally show ?thesis .
qed

text \<open>
  The start of a gap without window does nothing of what an activation does: it takes the
  buffer out of the active buffers, and leaves the buffers alive, the overlaps and the
  buffers of the partitions as they are.
\<close>

lemma map_update_same: "(map f xs)[i := f (xs ! i)] = map f xs"
  by (cases "i < length xs") (simp_all add: list_update_same_conv list_update_beyond)

lemma empty_gap_start_deactivates:
  assumes "isEmptyRightGap point" and "process_point es problem point s = Some s'"
  shows "actives s' = btree_erase idx_less (buffer_idx point) (actives s)"
    and "buffer_idx point \<notin> set (actives s')"
    and "alive s' = alive s"
    and "map overlaps (buffer_data s') = map overlaps (buffer_data s)"
    and "map buffer_idxs (partitions s') = map buffer_idxs (partitions s)"
proof -
  let ?s4 = "erase_buffer point (flush_section point
      (reset_window problem point (init_section_time point s)))"
  from assms(2) obtain s5 s8 where
    c: "close_span point ?s4 = Some s5"
    and j: "join_partition point (open_partition point (set_gap_window point s5)) = Some s8"
    and s': "s' = open_span point (insert_buffer point (record_overlaps es problem point s8))"
    by (rule process_point_SomeE)
  from assms(1) have k: "\<not> isLeft point" "\<not> isRight point" "\<not> isEmptyLeftGap point"
    "\<not> isWindowedLeftGap point" "\<not> isWindowedRightGap point"
    by (simp_all add: isEmptyRightGap_def isLeft_def isRight_def isEmptyLeftGap_def
        isWindowedLeftGap_def isWindowedRightGap_def)
  from j k have s8: "s8 = s5"
    by (simp add: join_partition_def open_partition_def set_gap_window_def)
  from k have s'': "s' = s5"
    by (simp add: s' s8 open_span_def insert_buffer_def record_overlaps_def)
  have a4: "actives ?s4 = btree_erase idx_less (buffer_idx point) (actives s)"
    "alive ?s4 = alive s" "buffer_data ?s4 = buffer_data s" "partitions ?s4 = partitions s"
    using assms(1) k
    by (simp_all add: erase_buffer_def flush_section_def reset_window_def
        init_section_time_def)
  show "actives s' = btree_erase idx_less (buffer_idx point) (actives s)"
    by (simp add: s'' close_span_fields [OF c] a4)
  then show "buffer_idx point \<notin> set (actives s')"
    by (simp add: set_btree_erase_idx)
  show "alive s' = alive s"
    by (simp add: s'' close_span_fields [OF c] a4)
  show "map overlaps (buffer_data s') = map overlaps (buffer_data s)"
    unfolding s'' close_span_summary(2) [OF c] a4
    by (simp add: map_update map_update_same)
  show "map buffer_idxs (partitions s') = map buffer_idxs (partitions s)"
    using c unfolding s'' a4 [symmetric]
    by (auto simp: close_span_def Let_def set_back_range_def map_update last_conv_nth
        list_update_same_conv split: if_splits)
qed

section \<open>The sweep of a well-formed problem\<close>

lemma flushed:
  "sections (flush_section p (init_section_time p s)) =
     (if closes p \<and> (if last_section_time s = - 1 then time_value p else last_section_time s)
           < time_value p
      then sections s @ [actives s] else sections s)"
  "last_section_time (flush_section p (init_section_time p s)) =
     (if closes p \<and> (if last_section_time s = - 1 then time_value p else last_section_time s)
           < time_value p
      then time_value p
      else (if last_section_time s = - 1 then time_value p else last_section_time s))"
  by (auto simp: flush_section_def init_section_time_def closes_def)

lemma opens_or_closes: "opens p \<or> closes p"
  by (cases "point_type p"; cases "window p")
     (auto simp: opens_def closes_def isLeft_def isRight_def isEmptyLeftGap_def
        isEmptyRightGap_def isWindowedLeftGap_def isWindowedRightGap_def)

lemma step_defined:
  assumes wf: "well_formed pb" and sp: "sweep_points pb = pre @ p # post"
    and b: "bounds_inv pb s" and o: "order_inv pb pre s"
  shows "\<exists>s'. process_point es pb p s = Some s'"
proof (rule process_point_defined)
  note ss = split_sorted [OF sp wf]
  note pb = sweep_point_buffer [OF wf ss(3)]
  from b pb(1) show "in_bounds pb p s"
    by (simp add: bounds_inv_def in_bounds_def)
  show "partitions s \<noteq> []"
    if "closes p" "buffer_idx_to_section_start s ! buffer_idx p \<noteq> - 1"
  proof -
    from o that(2) pb(1) obtain e where "e \<in> set pre" "buffer_idx e = buffer_idx p" "opens e"
      by (auto simp: order_inv_def)
    from left_before_close [OF wf sp this that(1)] o show ?thesis
      by (auto simp: order_inv_def)
  qed
  show "partitions s \<noteq> []" if "isLeft p" "alive s \<noteq> []"
    using o that by (simp add: order_inv_def)
qed

lemma step_bounds:
  assumes wf: "well_formed pb" and sp: "sweep_points pb = pre @ p # post"
    and b: "bounds_inv pb s" and pp: "process_point es pb p s = Some s'"
  shows "bounds_inv pb s'"
proof -
  note ss = split_sorted [OF sp wf]
  note pb = sweep_point_buffer [OF wf ss(3)]
  from process_point_actives [OF pp] b pb(1)
  have "list_all (\<lambda>a. a < length (buffers pb)) (actives s')"
    by (auto simp: bounds_inv_def list_all_iff)
  with b show ?thesis
    by (simp add: bounds_inv_def process_point_lengths [OF pp])
qed

lemma step_time:
  assumes wf: "well_formed pb" and sp: "sweep_points pb = pre @ p # post"
    and o: "order_inv pb pre s"
  shows "0 \<le> time_value p"
    and "(if last_section_time s = - 1 then time_value p else last_section_time s) \<le> time_value p"
    and "0 \<le> (if last_section_time s = - 1 then time_value p else last_section_time s)"
    and "pre \<noteq> [] \<Longrightarrow> last_section_time s \<noteq> - 1"
proof -
  note ss = split_sorted [OF sp wf]
  note pb = sweep_point_buffer [OF wf ss(3)]
  show t: "0 \<le> time_value p"
    by (rule buffer_point_facts(2) [OF pb(2,3)])
  have "last_section_time s \<le> time_value p" "0 \<le> last_section_time s" if "pre \<noteq> []"
  proof -
    from that have "last pre \<in> set pre" by simp
    with ss(1) have "event_le (last pre) p" by blast
    then have "time_value (last pre) \<le> time_value p" by (auto simp: event_le_def)
    with o that show "last_section_time s \<le> time_value p" "0 \<le> last_section_time s"
      by (simp_all add: order_inv_def)
  qed
  moreover from o have "pre = [] \<Longrightarrow> last_section_time s = - 1"
    by (simp add: order_inv_def)
  ultimately show
    "(if last_section_time s = - 1 then time_value p else last_section_time s) \<le> time_value p"
    "0 \<le> (if last_section_time s = - 1 then time_value p else last_section_time s)"
    "pre \<noteq> [] \<Longrightarrow> last_section_time s \<noteq> - 1"
    using t by (cases "pre = []"; force)+
qed

lemma step_order:
  assumes wf: "well_formed pb" and sp: "sweep_points pb = pre @ p # post"
    and b: "bounds_inv pb s" and sv: "spans_inv s" and o: "order_inv pb pre s"
    and pp: "process_point es pb p s = Some s'"
  shows "order_inv pb (pre @ [p]) s'"
proof -
  let ?l1 = "if last_section_time s = - 1 then time_value p else last_section_time s"
  define fl where "fl \<longleftrightarrow> closes p \<and> ?l1 < time_value p"
  note tm = step_time [OF wf sp o]
  have sec: "sections s' = (if fl then sections s @ [actives s] else sections s)"
    by (simp add: process_point_sections [OF pp] flushed fl_def)
  have lst: "last_section_time s' = (if fl then time_value p else ?l1)"
    by (simp add: process_point_last_section_time [OF pp] flushed fl_def)
  note st = process_point_section_start [OF pp]
  from b have len: "length (buffer_idx_to_section_start s) = length (buffers pb)"
    "length (buffer_data s) = length (buffers pb)"
    by (simp_all add: bounds_inv_def)
  have a: "alive s' \<noteq> [] \<longrightarrow> partitions s' \<noteq> []"
    using process_point_alive [OF pp] process_point_partitions [OF pp] o
    by (auto simp: order_inv_def)
  have l: "(\<exists>l \<in> set (pre @ [p]). isLeft l) \<longrightarrow> partitions s' \<noteq> []"
    using process_point_partitions [OF pp] o
    by (auto simp: order_inv_def)
  have t: "0 \<le> last_section_time s' \<and> last_section_time s' \<le> time_value p"
    using tm by (simp add: lst)
  have e: "\<exists>e \<in> set (pre @ [p]). buffer_idx e = i \<and> opens e \<and>
           (buffer_idx_to_section_start s' ! i = int (length (sections s')) \<longrightarrow>
              last_section_time s' \<le> time_value e)"
    if i: "i < length (buffers pb)" and ne: "buffer_idx_to_section_start s' ! i \<noteq> - 1" for i
  proof (cases "i = buffer_idx p")
    case True
    have "opens p"
    proof (rule ccontr)
      assume n: "\<not> opens p"
      with opens_or_closes [of p] have "closes p" by simp
      with n i True len have "buffer_idx_to_section_start s' ! i = - 1"
        by (simp add: st)
      with ne show False by simp
    qed
    with True t show ?thesis by auto
  next
    case False
    with i len have same: "buffer_idx_to_section_start s' ! i = buffer_idx_to_section_start s ! i"
      by (simp add: st)
    with o ne i obtain e where e: "e \<in> set pre" "buffer_idx e = i" "opens e"
      "buffer_idx_to_section_start s ! i = int (length (sections s)) \<longrightarrow>
         last_section_time s \<le> time_value e"
      by (auto simp: order_inv_def)
    from e(1) have "pre \<noteq> []" by auto
    with tm(4) have l1: "?l1 = last_section_time s" by simp
    from sv i len have le: "buffer_idx_to_section_start s ! i \<le> int (length (sections s))"
      by (simp add: spans_inv_def buffer_inv_def)
    have "last_section_time s' \<le> time_value e"
      if "buffer_idx_to_section_start s' ! i = int (length (sections s'))"
    proof (cases fl)
      case True
      with that le show ?thesis by (simp add: same sec)
    next
      case False
      then have "sections s' = sections s" "last_section_time s' = last_section_time s"
        using l1 by (simp_all add: sec lst)
      with that e(4) show ?thesis by (simp add: same)
    qed
    with e show ?thesis by auto
  qed
  from a l t e show ?thesis
    by (simp add: order_inv_def)
qed

lemma step_filled:
  assumes wf: "well_formed pb" and sp: "sweep_points pb = pre @ p # post"
    and b: "bounds_inv pb s" and sv: "spans_inv s" and o: "order_inv pb pre s"
    and pp: "process_point es pb p s = Some s'"
    and ap: "list_all windows_apart (buffers pb)" and f: "filled_inv s"
  shows "filled_inv s'"
proof -
  let ?l1 = "if last_section_time s = - 1 then time_value p else last_section_time s"
  define fl where "fl \<longleftrightarrow> closes p \<and> ?l1 < time_value p"
  let ?b = "buffer_idx p"
  note ss = split_sorted [OF sp wf]
  note pb = sweep_point_buffer [OF wf ss(3)]
  note tm = step_time [OF wf sp o]
  have sec: "sections s' = (if fl then sections s @ [actives s] else sections s)"
    by (simp add: process_point_sections [OF pp] flushed fl_def)
  from b have len: "length (buffer_idx_to_section_start s) = length (buffers pb)"
    "length (buffer_data s) = length (buffers pb)"
    by (simp_all add: bounds_inv_def)
  have lt: "buffer_idx_to_section_start s ! ?b < int (length (sections s'))"
    if c: "closes p" and ne: "buffer_idx_to_section_start s ! ?b \<noteq> - 1"
  proof -
    from o ne pb(1) obtain e where e: "e \<in> set pre" "buffer_idx e = ?b" "opens e"
      "buffer_idx_to_section_start s ! ?b = int (length (sections s)) \<longrightarrow>
         last_section_time s \<le> time_value e"
      by (auto simp: order_inv_def)
    from ap pb(1) have "windows_apart (buffers pb ! ?b)"
      by (simp add: list_all_length)
    from open_strictly_before_close [OF wf sp e(1,2,3) c this]
    have ec: "time_value e < time_value p" .
    from e(1) have "pre \<noteq> []" by auto
    with tm(4) have l1: "?l1 = last_section_time s" by simp
    from sv pb(1) len have le: "buffer_idx_to_section_start s ! ?b \<le> int (length (sections s))"
      by (simp add: spans_inv_def buffer_inv_def)
    show ?thesis
    proof (cases "buffer_idx_to_section_start s ! ?b = int (length (sections s))")
      case True
      with e(4) ec l1 c have fl by (simp add: fl_def)
      with True show ?thesis by (simp add: sec)
    next
      case False
      with le show ?thesis by (simp add: sec)
    qed
  qed
  have "list_all (\<lambda>a. lower (section_range a) < upper (section_range a))
          (section_spans (buffer_data s' ! i))"
    if i: "i < length (buffer_data s')" for i
  proof -
    from i have i': "i < length (buffer_data s)"
      by (simp add: process_point_lengths [OF pp])
    with f have old: "list_all (\<lambda>a. lower (section_range a) < upper (section_range a))
          (section_spans (buffer_data s ! i))"
      by (simp add: filled_inv_def)
    from process_point_spans [OF pp i'] obtain w where
      w: "section_spans (buffer_data s' ! i) =
           (if i = ?b \<and> closes p \<and> buffer_idx_to_section_start s ! ?b \<noteq> - 1
            then section_spans (buffer_data s ! i) @
                   [\<lparr>section_range = Interval (buffer_idx_to_section_start s ! ?b)
                                              (int (length (sections s'))),
                     span_window = w\<rparr>]
            else section_spans (buffer_data s ! i))" ..
    show ?thesis
    proof (cases "i = ?b \<and> closes p \<and> buffer_idx_to_section_start s ! ?b \<noteq> - 1")
      case True
      then have ib: "i = ?b" and cl: "closes p"
        and ne: "buffer_idx_to_section_start s ! ?b \<noteq> - 1"
        by simp_all
      from lt [OF cl ne] have "buffer_idx_to_section_start s ! ?b < int (length (sections s'))" .
      moreover from w have "section_spans (buffer_data s' ! ?b) =
          section_spans (buffer_data s ! ?b) @
            [\<lparr>section_range = Interval (buffer_idx_to_section_start s ! ?b)
                                       (int (length (sections s'))),
              span_window = w\<rparr>]"
        unfolding ib using cl ne by simp
      moreover from old have "list_all (\<lambda>a. lower (section_range a) < upper (section_range a))
          (section_spans (buffer_data s ! ?b))"
        unfolding ib .
      ultimately show ?thesis unfolding ib by simp
    next
      case False
      with w have "section_spans (buffer_data s' ! i) = section_spans (buffer_data s ! i)"
        by (auto split: if_splits)
      with old show ?thesis by simp
    qed
  qed
  then show ?thesis by (simp add: filled_inv_def)
qed

lemma sweep_loop_total:
  assumes wf: "well_formed pb" and sp: "sweep_points pb = pre @ rest"
    and b: "bounds_inv pb s" and sv: "spans_inv s" and o: "order_inv pb pre s"
  shows "\<exists>s'. sweep_loop es pb rest s = Some s' \<and> spans_inv s' \<and>
           (list_all windows_apart (buffers pb) \<longrightarrow> filled_inv s \<longrightarrow> filled_inv s')"
  using sp b sv o
proof (induction rest arbitrary: pre s)
  case Nil
  then show ?case by simp
next
  case (Cons p rest)
  from step_defined [OF wf Cons.prems(1,2,4)] obtain s1 where
    pp: "process_point es pb p s = Some s1" ..
  note b1 = step_bounds [OF wf Cons.prems(1,2) pp]
  note v1 = spans_inv_process_point [OF Cons.prems(3) pp]
  note o1 = step_order [OF wf Cons.prems(1,2,3,4) pp]
  from Cons.prems(1) have "sweep_points pb = (pre @ [p]) @ rest" by simp
  from Cons.IH [OF this b1 v1 o1] obtain s' where
    l: "sweep_loop es pb rest s1 = Some s'" and v: "spans_inv s'"
    and f: "list_all windows_apart (buffers pb) \<longrightarrow> filled_inv s1 \<longrightarrow> filled_inv s'"
    by blast
  have "filled_inv s'" if "list_all windows_apart (buffers pb)" "filled_inv s"
    using f that step_filled [OF wf Cons.prems(1,2,3,4) pp that] by blast
  with l v pp show ?case by simp
qed

lemma initial_invs:
  "bounds_inv pb (initial_state pb)" "order_inv pb [] (initial_state pb)"
  "filled_inv (initial_state pb)"
  by (simp_all add: bounds_inv_def order_inv_def filled_inv_def initial_state_def)

lemma Sweep_well_formed:
  assumes "well_formed pb"
  shows "\<exists>r. Sweep es pb = Some r \<and>
           list_all (\<lambda>bd. spans_ordered (section_spans bd)) (buffer_data r) \<and>
           list_all (\<lambda>q. lower (partition_range q) \<le> upper (partition_range q)) (partitions r) \<and>
           (list_all windows_apart (buffers pb) \<longrightarrow>
              list_all (\<lambda>bd. list_all (\<lambda>a. lower (section_range a) < upper (section_range a))
                                (section_spans bd)) (buffer_data r))"
proof -
  have "sweep_points pb = [] @ sweep_points pb" by simp
  from sweep_loop_total [OF assms this initial_invs(1) spans_inv_initial_state initial_invs(2)]
  obtain s where l: "sweep_loop es pb (sweep_points pb) (initial_state pb) = Some s"
    and f: "list_all windows_apart (buffers pb) \<longrightarrow> filled_inv s"
    using initial_invs(3) by blast
  then have r: "Sweep es pb = Some (result_of s)" by (simp add: Sweep_def)
  from f have "list_all windows_apart (buffers pb) \<longrightarrow>
      list_all (\<lambda>bd. list_all (\<lambda>a. lower (section_range a) < upper (section_range a))
                                (section_spans bd)) (buffer_data (result_of s))"
    by (simp add: result_of_def filled_inv_def list_all_length)
  with Sweep_spans_ordered [OF r] r show ?thesis by simp
qed

lemma strictly_increasing_filled:
  assumes "spans_ordered spans"
    and "list_all (\<lambda>a. lower (section_range a) < upper (section_range a)) spans"
  shows "strictly_increasing spans"
proof -
  from assms(1) have s: "sorted_wrt (\<lambda>a b. upper (section_range a) \<le> lower (section_range b)) spans"
    by (simp add: spans_ordered_def)
  have "sorted_wrt (\<lambda>a b. lower (section_range a) < lower (section_range b) \<and>
                        upper (section_range a) \<le> lower (section_range b)) spans"
  proof (rule sorted_wrt_mono_rel [OF _ s])
    fix a b
    assume "a \<in> set spans" and "upper (section_range a) \<le> lower (section_range b)"
    with assms(2) show "lower (section_range a) < lower (section_range b) \<and>
        upper (section_range a) \<le> lower (section_range b)"
      by (auto simp: list_all_iff)
  qed
  then show ?thesis by (simp add: strictly_increasing_def)
qed

text \<open>
  C7, as the code has it. For every well-formed problem \<open>Sweep\<close> returns a result. In it
  the spans of every buffer are in section order and do not overlap, each ending no later
  than the next begins; no range of a span or of a partition is inverted; and when no
  buffer has a windowed gap that ends exactly where another of its windowed gaps begins,
  the order of the spans is strict.
\<close>

theorem spans_in_section_order:
  assumes "well_formed problem"
  shows "\<exists>r. Sweep es problem = Some r \<and>
           list_all (\<lambda>bd. spans_ordered (section_spans bd)) (buffer_data r) \<and>
           list_all (\<lambda>q. lower (partition_range q) \<le> upper (partition_range q)) (partitions r) \<and>
           (list_all windows_apart (buffers problem) \<longrightarrow>
              list_all (\<lambda>bd. strictly_increasing (section_spans bd)) (buffer_data r))"
proof -
  from Sweep_well_formed [OF assms] obtain r where
    r: "Sweep es problem = Some r"
    and o: "list_all (\<lambda>bd. spans_ordered (section_spans bd)) (buffer_data r)"
    and p: "list_all (\<lambda>q. lower (partition_range q) \<le> upper (partition_range q)) (partitions r)"
    and f: "list_all windows_apart (buffers problem) \<longrightarrow>
              list_all (\<lambda>bd. list_all (\<lambda>a. lower (section_range a) < upper (section_range a))
                                (section_spans bd)) (buffer_data r)"
    by blast
  have "list_all (\<lambda>bd. strictly_increasing (section_spans bd)) (buffer_data r)"
    if "list_all windows_apart (buffers problem)"
    using o f that by (auto simp: list_all_iff intro: strictly_increasing_filled)
  with r o p show ?thesis by blast
qed

lemma well_formed_windowed_gap:
  "well_formed windowed_gap" "list_all windows_apart (buffers windowed_gap)"
  by (simp_all add: windowed_gap_def well_formed_def well_formed_buffer_def well_formed_gap_def
      windows_apart_def)

theorem spans_in_section_order_witness:
  "well_formed windowed_gap \<and> list_all windows_apart (buffers windowed_gap) \<and>
   (\<exists>r. Sweep no_conflict windowed_gap = Some r \<and>
      list_all (\<lambda>bd. spans_ordered (section_spans bd)) (buffer_data r) \<and>
      list_all (\<lambda>bd. strictly_increasing (section_spans bd)) (buffer_data r) \<and>
      list_all (\<lambda>q. lower (partition_range q) \<le> upper (partition_range q)) (partitions r))"
  using spans_in_section_order [OF well_formed_windowed_gap(1), of no_conflict]
    well_formed_windowed_gap
  by blast

text \<open>
  C7 as stated fails for the well-formed buffer with the windowed gaps [3,5) and [5,7): the
  start of the second gap is sorted before the end of the first, and the span between the
  two points is the empty [2,2), followed by [2,3).
\<close>

theorem adjacent_gaps_empty_span:
  "well_formed adjacent_gaps \<and>
   map_option (\<lambda>r. map (\<lambda>bd. map section_range (section_spans bd)) (buffer_data r))
     (Sweep no_conflict adjacent_gaps) =
     Some [[Interval 0 1, Interval 1 2, Interval 2 2, Interval 2 3, Interval 3 4]] \<and>
   \<not> strictly_increasing (section_spans (buffer_data (the (Sweep no_conflict adjacent_gaps)) ! 0))"
  by (simp add: Sweep_adjacent_gaps strictly_increasing_def)
     (simp add: adjacent_gaps_def well_formed_def well_formed_buffer_def well_formed_gap_def)

section \<open>The partitions of a well-formed problem\<close>

lemma ranges_cover_append:
  "ranges_cover k (rs @ [r]) n \<longleftrightarrow>
     ranges_cover k rs (lower r) \<and> lower r < upper r \<and> upper r = n"
  by (induction rs arbitrary: k) auto

lemma start_end_points:
  assumes "well_formed pb" and "i < length (buffers pb)"
  shows "start_point pb i \<in> set (sweep_points pb)" "end_point pb i \<in> set (sweep_points pb)"
  using assms
  by (simp_all add: set_sweep_points in_make_points in_buffer_points start_point_def
      end_point_def)

lemma start_end_fields [simp]:
  "buffer_idx (start_point pb i) = i" "buffer_idx (end_point pb i) = i"
  "point_type (start_point pb i) = kLeft" "point_type (end_point pb i) = kRight"
  "time_value (start_point pb i) = lower (lifespan (buffers pb ! i))"
  "time_value (end_point pb i) = upper (lifespan (buffers pb ! i))"
  by (simp_all add: start_point_def end_point_def)

lemma isLeft_start_point:
  assumes "well_formed pb" and "l \<in> set (sweep_points pb)" and "isLeft l"
  shows "l = start_point pb (buffer_idx l)"
  using buffer_point_facts(5) [OF sweep_point_buffer(2,3) [OF assms(1,2)]] assms(3)
  by (simp add: isLeft_def start_point_def)

lemma right_point_eq:
  assumes "x \<in> set (buffer_points i b)" and "point_type x = kRight"
  shows "x = \<lparr>buffer_idx = i, time_value = upper (lifespan b), point_type = kRight,
              window = None\<rparr>"
  using assms unfolding in_buffer_points by auto

lemma isRight_end_point:
  assumes "well_formed pb" and "r \<in> set (sweep_points pb)" and "isRight r"
  shows "r = end_point pb (buffer_idx r)"
  using right_point_eq [OF sweep_point_buffer(3) [OF assms(1,2)]] assms(3)
  by (simp add: isRight_def end_point_def)

text \<open>The points processed before a point are those that come strictly before it.\<close>

lemma in_pre_iff:
  assumes wf: "well_formed pb" and sp: "sweep_points pb = pre @ p # post"
    and q: "q \<in> set (sweep_points pb)"
  shows "q \<in> set pre \<longleftrightarrow> event_le q p \<and> q \<noteq> p"
proof
  note ss = split_sorted [OF sp wf]
  show "event_le q p \<and> q \<noteq> p" if "q \<in> set pre" using ss(1) that by blast
  show "q \<in> set pre" if "event_le q p \<and> q \<noteq> p"
  proof (rule ccontr)
    assume "q \<notin> set pre"
    with q sp that have "q \<in> set post" by auto
    with ss(2) have "event_le p q" by blast
    from event_le_antisym [OF wf _ _ this] that q ss(3) show False
      by (simp add: set_sweep_points)
  qed
qed

lemma in_pre_snoc_iff:
  assumes wf: "well_formed pb" and sp: "sweep_points pb = pre @ p # post"
    and q: "q \<in> set (sweep_points pb)"
  shows "q \<in> set (pre @ [p]) \<longleftrightarrow> event_le q p"
  using in_pre_iff [OF assms] by (auto simp: event_le_def)


lemma closes_not_opening:
  "closes p \<Longrightarrow> \<not> isLeft p \<and> \<not> isEmptyLeftGap p"
  "isRight p \<Longrightarrow> closes p \<and> \<not> opens p"
  "isLeft p \<Longrightarrow> opens p \<and> \<not> closes p \<and> \<not> isRight p"
  "isEmptyLeftGap p \<Longrightarrow> opens p \<and> \<not> closes p \<and> \<not> isRight p \<and> \<not> isLeft p"
  by (auto simp: closes_def opens_def isLeft_def isRight_def isEmptyLeftGap_def
      isEmptyRightGap_def isWindowedLeftGap_def isWindowedRightGap_def)

lemma process_point_alive_eq:
  assumes "process_point es pb p s = Some s'"
  shows "alive s' =
           (if isLeft p then btree_insert idx_less (buffer_idx p) (alive s)
            else if isRight p then btree_erase idx_less (buffer_idx p) (alive s)
            else alive s)"
proof -
  let ?s4 = "erase_buffer p (flush_section p (reset_window pb p (init_section_time p s)))"
  from assms obtain s5 s8 where
    c: "close_span p ?s4 = Some s5"
    and j: "join_partition p (open_partition p (set_gap_window p s5)) = Some s8"
    and s': "s' = open_span p (insert_buffer p (record_overlaps es pb p s8))"
    by (rule process_point_SomeE)
  have "alive ?s4 = (if isRight p then btree_erase idx_less (buffer_idx p) (alive s) else alive s)"
    by (simp add: erase_buffer_def Let_def flush_section_def reset_window_def
        init_section_time_def)
  then have "alive s8 =
      (if isRight p then btree_erase idx_less (buffer_idx p) (alive s) else alive s)"
    by (simp add: join_partition_fields [OF j] close_span_fields [OF c])
  moreover have "alive s' =
      (if isLeft p then btree_insert idx_less (buffer_idx p) (alive s8) else alive s8)"
    by (simp add: s' insert_buffer_def Let_def)
  ultimately show ?thesis
    by (auto simp: isLeft_def isRight_def)
qed

lemma map_range_push_back_idx [simp]:
  "map partition_range (push_back_idx i ps) = map partition_range ps"
proof (cases "ps = []")
  case True
  then show ?thesis by (simp add: push_back_idx_def)
next
  case False
  then have "length ps - 1 < length ps" by (cases ps) simp_all
  with False show ?thesis
    by (simp add: push_back_idx_def map_update last_conv_nth list_update_same_conv)
qed

lemma close_span_ranges:
  assumes "close_span p s = Some s'"
  shows "map partition_range (partitions s') =
           (if closes p \<and> buffer_idx_to_section_start s ! buffer_idx p \<noteq> - 1 \<and> alive s = []
            then (map partition_range (partitions s))
                   [length (partitions s) - 1 :=
                      Interval (last_section_idx s) (int (length (sections s)))]
            else map partition_range (partitions s))"
    and "last_section_idx s' =
           (if closes p \<and> buffer_idx_to_section_start s ! buffer_idx p \<noteq> - 1 \<and> alive s = []
            then int (length (sections s)) else last_section_idx s)"
    and "closes p \<and> buffer_idx_to_section_start s ! buffer_idx p \<noteq> - 1 \<and> alive s = []
           \<Longrightarrow> partitions s \<noteq> []"
  using assms
  by (auto simp: close_span_def closes_def Let_def set_back_range_def map_update
      split: if_splits)

lemma process_point_ranges:
  assumes "process_point es pb p s = Some s'"
  shows "map partition_range (partitions s') =
           (if closes p \<and> buffer_idx_to_section_start s ! buffer_idx p \<noteq> - 1 \<and> alive s' = []
            then (map partition_range (partitions s))
                   [length (partitions s) - 1 :=
                      Interval (last_section_idx s) (int (length (sections s')))]
            else if (isLeft p \<or> isEmptyLeftGap p) \<and> alive s = []
            then map partition_range (partitions s) @ [Interval 0 0]
            else map partition_range (partitions s))"
    and "last_section_idx s' =
           (if closes p \<and> buffer_idx_to_section_start s ! buffer_idx p \<noteq> - 1 \<and> alive s' = []
            then int (length (sections s')) else last_section_idx s)"
proof -
  let ?s4 = "erase_buffer p (flush_section p (reset_window pb p (init_section_time p s)))"
  from assms obtain s5 s8 where
    c: "close_span p ?s4 = Some s5"
    and j: "join_partition p (open_partition p (set_gap_window p s5)) = Some s8"
    and s': "s' = open_span p (insert_buffer p (record_overlaps es pb p s8))"
    by (rule process_point_SomeE)
  note cr = close_span_ranges [OF c]
  have sec: "sections (flush_section p (reset_window pb p (init_section_time p s))) = sections s'"
    by (simp add: process_point_sections [OF assms] flush_section_def)
  have st: "buffer_idx_to_section_start ?s4 = buffer_idx_to_section_start s"
    by (simp add: erase_buffer_def Let_def flush_section_def reset_window_def
        init_section_time_def)
  have li: "last_section_idx ?s4 = last_section_idx s"
    by (simp add: erase_buffer_def Let_def flush_section_def reset_window_def
        init_section_time_def)
  have pa: "partitions ?s4 = partitions s"
    by (simp add: erase_buffer_def Let_def flush_section_def reset_window_def
        init_section_time_def)
  have al: "alive s5 = alive ?s4" by (simp add: close_span_fields [OF c])
  have al': "closes p \<Longrightarrow> alive s' = alive ?s4"
    using closes_not_opening(1) [of p]
    by (simp add: s' insert_buffer_def Let_def join_partition_fields [OF j]
        close_span_fields [OF c])
  have al4: "\<not> closes p \<Longrightarrow> alive ?s4 = alive s"
    using closes_not_opening(2) [of p]
    by (auto simp: erase_buffer_def Let_def flush_section_def reset_window_def
        init_section_time_def isEmptyRightGap_def isRight_def closes_def)
  have j8: "map partition_range (partitions s8) =
      map partition_range (partitions (open_partition p (set_gap_window p s5)))"
    using j by (auto simp: join_partition_def split: if_splits)
  have o: "map partition_range (partitions (open_partition p (set_gap_window p s5))) =
      (if (isLeft p \<or> isEmptyLeftGap p) \<and> alive s5 = []
       then map partition_range (partitions s5) @ [Interval 0 0]
       else map partition_range (partitions s5))"
    by (simp add: open_partition_def)
  have p': "partitions s' = partitions s8" by (simp add: s')
  show "map partition_range (partitions s') =
           (if closes p \<and> buffer_idx_to_section_start s ! buffer_idx p \<noteq> - 1 \<and> alive s' = []
            then (map partition_range (partitions s))
                   [length (partitions s) - 1 :=
                      Interval (last_section_idx s) (int (length (sections s')))]
            else if (isLeft p \<or> isEmptyLeftGap p) \<and> alive s = []
            then map partition_range (partitions s) @ [Interval 0 0]
            else map partition_range (partitions s))"
  proof (cases "closes p")
    case True
    with closes_not_opening(1) [of p] show ?thesis
      unfolding p' j8 o cr(1) by (simp add: al' st li pa sec)
  next
    case False
    then show ?thesis
      unfolding p' j8 o cr(1) al by (simp add: al4 pa)
  qed
  have "last_section_idx s' = last_section_idx s5"
    by (simp add: s' join_partition_fields [OF j])
  then show "last_section_idx s' =
           (if closes p \<and> buffer_idx_to_section_start s ! buffer_idx p \<noteq> - 1 \<and> alive s' = []
            then int (length (sections s')) else last_section_idx s)"
    unfolding cr(2) by (cases "closes p") (simp_all add: al' st li sec)
qed


lemma start_end_eq:
  assumes "well_formed pb" and "p \<in> set (sweep_points pb)"
  shows "start_point pb j = p \<longleftrightarrow> isLeft p \<and> j = buffer_idx p"
    and "end_point pb j = p \<longleftrightarrow> isRight p \<and> j = buffer_idx p"
  using isLeft_start_point [OF assms] isRight_end_point [OF assms]
  by (auto simp: isLeft_def isRight_def)

lemma end_after_start:
  assumes wf: "well_formed pb" and sp: "sweep_points pb = pre @ p # post"
    and l: "isLeft p"
  shows "end_point pb (buffer_idx p) \<notin> set pre"
proof
  assume e: "end_point pb (buffer_idx p) \<in> set pre"
  note ss = split_sorted [OF sp wf]
  note pb = sweep_point_buffer [OF wf ss(3)]
  from ss(1) e have "event_le (end_point pb (buffer_idx p)) p" by blast
  moreover from isLeft_start_point [OF wf ss(3) l]
  have "time_value p = lower (lifespan (buffers pb ! buffer_idx p))"
    by (metis start_end_fields(5))
  moreover from pb(2) have "lower (lifespan (buffers pb ! buffer_idx p))
      < upper (lifespan (buffers pb ! buffer_idx p))"
    by (simp add: well_formed_buffer_def)
  ultimately show False by (auto simp: event_le_def)
qed

lemma step_alive:
  assumes wf: "well_formed pb" and sp: "sweep_points pb = pre @ p # post"
    and a: "alive_inv pb pre s" and pp: "process_point es pb p s = Some s'"
  shows "alive_inv pb (pre @ [p]) s'"
proof -
  note ss = split_sorted [OF sp wf]
  note eq = start_end_eq [OF wf ss(3)]
  note al = process_point_alive_eq [OF pp]
  from ss(1) have np: "p \<notin> set pre" by blast
  have "j \<in> set (alive s') \<longleftrightarrow>
      (start_point pb j \<in> set pre \<or> start_point pb j = p) \<and>
      \<not> (end_point pb j \<in> set pre \<or> end_point pb j = p)" for j
  proof (cases "isLeft p")
    case True
    then have nr: "\<not> isRight p" by (simp add: isLeft_def isRight_def)
    from True al have "set (alive s') = insert (buffer_idx p) (set (alive s))"
      by (simp add: set_btree_insert_idx)
    with a end_after_start [OF wf sp True] np show ?thesis
      unfolding eq alive_inv_def using True nr by auto
  next
    case False
    show ?thesis
    proof (cases "isRight p")
      case True
      with False al have "set (alive s') = set (alive s) - {buffer_idx p}"
        by (simp add: set_btree_erase_idx)
      with a show ?thesis
        unfolding eq alive_inv_def using True False by auto
    next
      case nr: False
      with False al have "alive s' = alive s" by simp
      with a show ?thesis
        unfolding eq alive_inv_def using nr False by auto
    qed
  qed
  then show ?thesis unfolding alive_inv_def by auto
qed


lemma process_point_start_nth:
  assumes "process_point es pb p s = Some s'"
  shows "j \<noteq> buffer_idx p \<Longrightarrow>
           buffer_idx_to_section_start s' ! j = buffer_idx_to_section_start s ! j"
    and "opens p \<Longrightarrow>
           buffer_idx_to_section_start s' ! buffer_idx p = int (length (sections s'))"
    and "\<not> opens p \<Longrightarrow> buffer_idx_to_section_start s' ! buffer_idx p = - 1"
proof -
  from assms have "in_bounds pb p s" by (rule process_point_SomeE)
  then have i: "buffer_idx p < length (buffer_idx_to_section_start s)"
    by (simp add: in_bounds_def)
  note st = process_point_section_start [OF assms]
  show "j \<noteq> buffer_idx p \<Longrightarrow>
      buffer_idx_to_section_start s' ! j = buffer_idx_to_section_start s ! j"
    unfolding st by simp
  show "opens p \<Longrightarrow>
      buffer_idx_to_section_start s' ! buffer_idx p = int (length (sections s'))"
    unfolding st using i by simp
  show "\<not> opens p \<Longrightarrow> buffer_idx_to_section_start s' ! buffer_idx p = - 1"
    unfolding st using i opens_or_closes [of p] by auto
qed

lemma gap_end_of_start:
  assumes "well_formed_buffer b" and "p \<in> set (buffer_points i b)"
    and "point_type p = kRightGap"
  shows "\<exists>q \<in> set (buffer_points i b).
           point_type q = kLeftGap \<and> window q = window p \<and> time_value p < time_value q"
proof -
  from assms(2,3) obtain g where g: "g \<in> set (gaps b)"
    and p: "p = \<lparr>buffer_idx = i, time_value = lower (gap_lifespan g), point_type = kRightGap,
              window = gap_window g\<rparr>"
    by (auto simp: in_buffer_points)
  let ?q = "\<lparr>buffer_idx = i, time_value = upper (gap_lifespan g), point_type = kLeftGap,
              window = gap_window g\<rparr>"
  from g have "?q \<in> set (buffer_points i b)"
    unfolding in_buffer_points by blast
  moreover from gap_bounds(2) [OF assms(1) g] p
  have "point_type ?q = kLeftGap \<and> window ?q = window p \<and> time_value p < time_value ?q"
    by simp
  ultimately show ?thesis by blast
qed

lemma gap_end_resumes:
  assumes "resumes b" and "q \<in> set (buffer_points i b)"
    and "point_type q = kLeftGap" and "window q = None"
  shows "time_value q < upper (lifespan b)"
proof -
  from assms(2,3) obtain g where g: "g \<in> set (gaps b)"
    and q: "q = \<lparr>buffer_idx = i, time_value = upper (gap_lifespan g), point_type = kLeftGap,
              window = gap_window g\<rparr>"
    by (auto simp: in_buffer_points)
  from assms(4) q have "gap_window g = None" by simp
  with assms(1) g have "upper (gap_lifespan g) < upper (lifespan b)"
    by (auto simp: resumes_def list_all_iff)
  with q show ?thesis by simp
qed

lemma pending_gap_end:
  assumes wf: "well_formed pb" and sp: "sweep_points pb = pre @ p # post"
    and e: "isEmptyRightGap p"
  shows "\<exists>q \<in> set (sweep_points pb).
           q \<notin> set (pre @ [p]) \<and> buffer_idx q = buffer_idx p \<and> isEmptyLeftGap q"
proof -
  note ss = split_sorted [OF sp wf]
  note pb = sweep_point_buffer [OF wf ss(3)]
  from e have t: "point_type p = kRightGap" "window p = None"
    by (simp_all add: isEmptyRightGap_def)
  from gap_end_of_start [OF pb(2,3) t(1)] obtain q where
    q: "q \<in> set (buffer_points (buffer_idx p) (buffers pb ! buffer_idx p))"
      "point_type q = kLeftGap" "window q = window p" "time_value p < time_value q"
    by blast
  from q(1) pb(1) buffer_point_facts(1) [OF pb(2) q(1)]
  have qs: "q \<in> set (sweep_points pb)" "buffer_idx q = buffer_idx p"
    by (simp_all add: set_sweep_points in_make_points)
  from q(4) have "\<not> event_le q p" by (auto simp: event_le_def)
  with in_pre_snoc_iff [OF wf sp qs(1)] have "q \<notin> set (pre @ [p])" by simp
  moreover from q(2,3) t(2) have "isEmptyLeftGap q" by (simp add: isEmptyLeftGap_def)
  ultimately show ?thesis using qs by blast
qed

lemma after_end_point:
  assumes wf: "well_formed pb" and sp: "sweep_points pb = pre @ p # post"
    and e: "end_point pb (buffer_idx p) \<in> set pre"
  shows "point_type p = kLeftGap"
    and "time_value p = upper (lifespan (buffers pb ! buffer_idx p))"
    and "\<And>q. q \<in> set (sweep_points pb) \<Longrightarrow> buffer_idx q = buffer_idx p
           \<Longrightarrow> q \<in> set (pre @ [p])"
proof -
  let ?b = "buffers pb ! buffer_idx p"
  note ss = split_sorted [OF sp wf]
  note pb = sweep_point_buffer [OF wf ss(3)]
  note pf = buffer_point_facts [OF pb(2,3)]
  from pb(2) have lu: "lower (lifespan ?b) < upper (lifespan ?b)"
    by (simp add: well_formed_buffer_def)
  from ss(1) e have le: "event_le (end_point pb (buffer_idx p)) p"
    and ne: "end_point pb (buffer_idx p) \<noteq> p" by blast+
  from le pf(4) show t: "time_value p = upper (lifespan ?b)"
    by (auto simp: event_le_def)
  from le t have tr: "1 \<le> event_tier p"
    by (auto simp: event_le_def event_tier_def)
  show k: "point_type p = kLeftGap"
  proof (cases "point_type p")
    case kRightGap
    with tr show ?thesis by (simp add: event_tier_def)
  next
    case kRight
    with isRight_end_point [OF wf ss(3)] ne show ?thesis by (simp add: isRight_def)
  next
    case kLeft
    with pf(5) t lu show ?thesis by (cases p) auto
  next
    case kLeftGap
    then show ?thesis .
  qed
  show "q \<in> set (pre @ [p])" if q: "q \<in> set (sweep_points pb)" "buffer_idx q = buffer_idx p" for q
  proof -
    from sweep_point_buffer(3) [OF wf q(1)] q(2)
    have "q \<in> set (buffer_points (buffer_idx p) ?b)" by simp
    from buffer_point_facts(4) [OF pb(2) this] t have "time_value q \<le> time_value p" by simp
    moreover have "event_tier q \<le> event_tier p"
      using k by (cases "point_type q") (simp_all add: event_tier_def)
    ultimately have "event_le q p" using q(2) by (auto simp: event_le_def)
    with in_pre_snoc_iff [OF wf sp q(1)] show ?thesis by simp
  qed
qed


text \<open>
  Where a point lies with respect to the true start and the true end of its buffer decides
  whether the buffer is alive when the point is processed.
\<close>

lemma start_before:
  assumes wf: "well_formed pb" and sp: "sweep_points pb = pre @ p # post"
    and t: "lower (lifespan (buffers pb ! buffer_idx p)) < time_value p"
  shows "start_point pb (buffer_idx p) \<in> set pre"
proof -
  note ss = split_sorted [OF sp wf]
  note pb = sweep_point_buffer [OF wf ss(3)]
  have "start_point pb (buffer_idx p) \<noteq> p"
  proof
    assume "start_point pb (buffer_idx p) = p"
    then have "time_value p = lower (lifespan (buffers pb ! buffer_idx p))"
      by (metis start_end_fields(5))
    with t show False by simp
  qed
  with t have "event_le (start_point pb (buffer_idx p)) p \<and> start_point pb (buffer_idx p) \<noteq> p"
    by (simp add: event_le_def)
  with in_pre_iff [OF wf sp start_end_points(1) [OF wf pb(1)]] show ?thesis by simp
qed

lemma end_not_before:
  assumes wf: "well_formed pb" and sp: "sweep_points pb = pre @ p # post"
    and t: "time_value p < upper (lifespan (buffers pb ! buffer_idx p))"
  shows "end_point pb (buffer_idx p) \<notin> set pre"
  using after_end_point(2) [OF wf sp] t by auto

lemma alive_at_gap_end:
  assumes wf: "well_formed pb" and early: "list_all resumes (buffers pb)"
    and sp: "sweep_points pb = pre @ p # post"
    and a: "alive_inv pb pre s" and e: "isEmptyLeftGap p"
  shows "buffer_idx p \<in> set (alive s)"
proof -
  note ss = split_sorted [OF sp wf]
  note pb = sweep_point_buffer [OF wf ss(3)]
  from e have t: "point_type p = kLeftGap" "window p = None"
    by (simp_all add: isEmptyLeftGap_def)
  from early pb(1) have "resumes (buffers pb ! buffer_idx p)"
    by (simp add: list_all_length)
  from gap_end_resumes [OF this pb(3) t]
  have "end_point pb (buffer_idx p) \<notin> set pre"
    by (rule end_not_before [OF wf sp])
  moreover from buffer_point_facts(7) [OF pb(2,3) t(1)]
  have "start_point pb (buffer_idx p) \<in> set pre"
    by (rule start_before [OF wf sp])
  ultimately show ?thesis using a by (simp add: alive_inv_def)
qed

lemma alive_at_end:
  assumes wf: "well_formed pb" and sp: "sweep_points pb = pre @ p # post"
    and a: "alive_inv pb pre s" and r: "isRight p"
  shows "buffer_idx p \<in> set (alive s)"
proof -
  note ss = split_sorted [OF sp wf]
  note pb = sweep_point_buffer [OF wf ss(3)]
  from isRight_end_point [OF wf ss(3) r] have p: "end_point pb (buffer_idx p) = p" by simp
  with ss(1) have "end_point pb (buffer_idx p) \<notin> set pre" by auto
  moreover from p have "time_value p = upper (lifespan (buffers pb ! buffer_idx p))"
    by (metis start_end_fields(6))
  with pb(2) have "lower (lifespan (buffers pb ! buffer_idx p)) < time_value p"
    by (simp add: well_formed_buffer_def)
  then have "start_point pb (buffer_idx p) \<in> set pre"
    by (rule start_before [OF wf sp])
  ultimately show ?thesis using a by (simp add: alive_inv_def)
qed

lemma open_at_end:
  assumes wf: "well_formed pb" and early: "list_all resumes (buffers pb)"
    and sp: "sweep_points pb = pre @ p # post"
    and a: "alive_inv pb pre s" and pd: "pending_inv pb pre s" and r: "isRight p"
  shows "buffer_idx_to_section_start s ! buffer_idx p \<noteq> - 1"
proof
  assume m: "buffer_idx_to_section_start s ! buffer_idx p = - 1"
  let ?b = "buffers pb ! buffer_idx p"
  note ss = split_sorted [OF sp wf]
  note pb = sweep_point_buffer [OF wf ss(3)]
  from pd alive_at_end [OF wf sp a r] m obtain q where
    q: "q \<in> set (sweep_points pb)" "q \<notin> set pre" "buffer_idx q = buffer_idx p"
      "isEmptyLeftGap q"
    unfolding pending_inv_def by blast
  from q(4) have t: "point_type q = kLeftGap" "window q = None"
    by (simp_all add: isEmptyLeftGap_def)
  from r t(1) have "q \<noteq> p" by (auto simp: isRight_def)
  with in_pre_iff [OF wf sp q(1)] q(2) have "\<not> event_le q p" by simp
  with event_le_total [of q p] have "event_le p q" by simp
  then have "time_value p \<le> time_value q" by (auto simp: event_le_def)
  moreover from isRight_end_point [OF wf ss(3) r]
  have "time_value p = upper (lifespan ?b)" by (metis start_end_fields(6))
  moreover from sweep_point_buffer(3) [OF wf q(1)] q(3)
  have qb: "q \<in> set (buffer_points (buffer_idx p) ?b)" by simp
  from early pb(1) have "resumes ?b" by (simp add: list_all_length)
  from gap_end_resumes [OF this qb t] have "time_value q < upper (lifespan ?b)" .
  ultimately show False by simp
qed

lemma alive_at_close:
  assumes wf: "well_formed pb" and sp: "sweep_points pb = pre @ p # post"
    and a: "alive_inv pb pre s" and pd: "pending_inv pb pre s" and o: "order_inv pb pre s"
    and c: "closes p" and m: "buffer_idx_to_section_start s ! buffer_idx p \<noteq> - 1"
  shows "buffer_idx p \<in> set (alive s)"
proof -
  note ss = split_sorted [OF sp wf]
  note pb = sweep_point_buffer [OF wf ss(3)]
  from o m pb(1) obtain e where "e \<in> set pre" "buffer_idx e = buffer_idx p" "opens e"
    by (auto simp: order_inv_def)
  from left_before_close [OF wf sp this c] obtain l where
    l: "l \<in> set pre" "isLeft l" "buffer_idx l = buffer_idx p" by blast
  from l(1) ss(4) have "l \<in> set (sweep_points pb)" by auto
  from isLeft_start_point [OF wf this l(2)] l(1,3)
  have "start_point pb (buffer_idx p) \<in> set pre" by simp
  moreover have "end_point pb (buffer_idx p) \<notin> set pre"
  proof
    assume "end_point pb (buffer_idx p) \<in> set pre"
    with pd m ss(3) have "p \<in> set pre" unfolding pending_inv_def by blast
    with ss(1) show False by blast
  qed
  ultimately show ?thesis using a by (simp add: alive_inv_def)
qed


text \<open>One iteration maintains the invariants.\<close>

lemma step_pending:
  assumes wf: "well_formed pb" and sp: "sweep_points pb = pre @ p # post"
    and o: "order_inv pb pre s" and pd: "pending_inv pb pre s"
    and pp: "process_point es pb p s = Some s'"
  shows "pending_inv pb (pre @ [p]) s'"
proof -
  note ss = split_sorted [OF sp wf]
  note al = process_point_alive_eq [OF pp]
  note st = process_point_start_nth [OF pp]
  have 1: "\<exists>q \<in> set (sweep_points pb). q \<notin> set (pre @ [p]) \<and> buffer_idx q = j \<and> isEmptyLeftGap q"
    if j: "j \<in> set (alive s')" "buffer_idx_to_section_start s' ! j = - 1" for j
  proof (cases "j = buffer_idx p")
    case True
    from j(2) True st(2) have no: "\<not> opens p" by auto
    have nr: "\<not> isRight p"
    proof
      assume "isRight p"
      with al closes_not_opening(3) [of p] have "set (alive s') = set (alive s) - {buffer_idx p}"
        by (auto simp: set_btree_erase_idx)
      with j(1) True show False by simp
    qed
    from no nr have "isEmptyRightGap p"
      by (cases "point_type p")
         (auto simp: opens_cases isRight_def isEmptyRightGap_def)
    from pending_gap_end [OF wf sp this] True show ?thesis by simp
  next
    case False
    with st(1) j(2) have m: "buffer_idx_to_section_start s ! j = - 1" by simp
    from al have "set (alive s') \<subseteq> insert (buffer_idx p) (set (alive s))"
      by (auto simp: set_btree_insert_idx set_btree_erase_idx)
    with j(1) False have "j \<in> set (alive s)" by auto
    with pd m obtain q where
      q: "q \<in> set (sweep_points pb)" "q \<notin> set pre" "buffer_idx q = j" "isEmptyLeftGap q"
      unfolding pending_inv_def by blast
    from q(3) False have "q \<noteq> p" by auto
    with q show ?thesis by auto
  qed
  have 2: "q \<in> set (pre @ [p])"
    if j: "end_point pb j \<in> set (pre @ [p])" "buffer_idx_to_section_start s' ! j \<noteq> - 1"
      and q: "q \<in> set (sweep_points pb)" "buffer_idx q = j" for j q
  proof (cases "j = buffer_idx p")
    case True
    show ?thesis
    proof (cases "end_point pb j = p")
      case e: True
      then have "point_type p = kRight" by (metis start_end_fields(4))
      then have "\<not> opens p" by (simp add: opens_cases)
      with st(3) j(2) True show ?thesis by simp
    next
      case False
      with j(1) True have "end_point pb (buffer_idx p) \<in> set pre" by simp
      from after_end_point(3) [OF wf sp this q(1)] q(2) True show ?thesis by simp
    qed
  next
    case False
    then have "end_point pb j \<noteq> p" by (metis start_end_fields(2))
    with j(1) have "end_point pb j \<in> set pre" by simp
    moreover from False st(1) j(2) have "buffer_idx_to_section_start s ! j \<noteq> - 1" by simp
    ultimately have "q \<in> set pre" using pd q unfolding pending_inv_def by blast
    then show ?thesis by simp
  qed
  let ?l1 = "if last_section_time s = - 1 then time_value p else last_section_time s"
  have lt: "last_section_time s' = (if closes p \<and> ?l1 < time_value p then time_value p else ?l1)"
    by (simp add: process_point_last_section_time [OF pp] flushed)
  have 3: "time_value c \<le> last_section_time s'" if c: "c \<in> set (pre @ [p])" "closes c" for c
  proof (cases "c = p")
    case True
    with c(2) show ?thesis unfolding lt by auto
  next
    case False
    with c(1) have cp: "c \<in> set pre" by simp
    then have "pre \<noteq> []" by auto
    from step_time(4) [OF wf sp o this] have "?l1 = last_section_time s" by simp
    moreover from pd cp c(2) have "time_value c \<le> last_section_time s"
      unfolding pending_inv_def by blast
    ultimately show ?thesis unfolding lt by auto
  qed
  from 1 2 3 show ?thesis unfolding pending_inv_def by blast
qed


lemma update_last_conv:
  "xs \<noteq> [] \<Longrightarrow> xs[length xs - 1 := x] = butlast xs @ [x]"
  by (induction xs rule: rev_induct) simp_all

lemma step_cover:
  assumes wf: "well_formed pb" and early: "list_all resumes (buffers pb)"
    and sp: "sweep_points pb = pre @ p # post"
    and sv: "spans_inv s" and o: "order_inv pb pre s" and a: "alive_inv pb pre s"
    and pd: "pending_inv pb pre s" and cv: "cover_inv pb pre s"
    and pp: "process_point es pb p s = Some s'"
  shows "cover_inv pb (pre @ [p]) s'"
proof -
  let ?R = "map partition_range (partitions s)"
  let ?R' = "map partition_range (partitions s')"
  let ?n = "int (length (sections s))"
  let ?n' = "int (length (sections s'))"
  let ?l1 = "if last_section_time s = - 1 then time_value p else last_section_time s"
  define A where
    "A \<longleftrightarrow> closes p \<and> buffer_idx_to_section_start s ! buffer_idx p \<noteq> - 1 \<and> alive s' = []"
  note ss = split_sorted [OF sp wf]
  note pb = sweep_point_buffer [OF wf ss(3)]
  note al = process_point_alive_eq [OF pp]
  note pr = process_point_ranges [OF pp, folded A_def]
  have sec: "sections s' = (if closes p \<and> ?l1 < time_value p then sections s @ [actives s]
      else sections s)"
    by (simp add: process_point_sections [OF pp] flushed)
  then have nn: "?n \<le> ?n'" by simp
  from sv have kn: "last_section_idx s \<le> ?n" by (simp add: spans_inv_def)
  have right: "alive s \<noteq> [] \<and> (alive s' = [] \<longrightarrow> A)" if "isRight p"
  proof -
    from alive_at_end [OF wf sp a that] have "alive s \<noteq> []" by auto
    moreover from open_at_end [OF wf early sp a pd that] closes_not_opening(2) [OF that]
    have "alive s' = [] \<longrightarrow> A" by (simp add: A_def)
    ultimately show ?thesis by simp
  qed
  have left: "alive s' \<noteq> []" if "isLeft p"
  proof -
    from al that have "set (alive s') = insert (buffer_idx p) (set (alive s))"
      by (simp add: set_btree_insert_idx)
    then show ?thesis by auto
  qed
  have other: "alive s' = alive s" if "\<not> isLeft p" "\<not> isRight p"
    using al that by simp
  have gap_end: "alive s \<noteq> []" if "isEmptyLeftGap p"
    using alive_at_gap_end [OF wf early sp a that] by auto
  have lt: "last_section_time s' = (if closes p \<and> ?l1 < time_value p then time_value p else ?l1)"
    by (simp add: process_point_last_section_time [OF pp] flushed)
  have l1: "?l1 = last_section_time s" if "alive s \<noteq> []"
  proof -
    from that obtain j where "j \<in> set (alive s)" by (cases "alive s") auto
    with a have "start_point pb j \<in> set pre" by (simp add: alive_inv_def)
    then have "pre \<noteq> []" by auto
    from step_time(4) [OF wf sp o this] show ?thesis by simp
  qed
  have up: "time_value p = upper (lifespan (buffers pb ! buffer_idx p))"
      "lower (lifespan (buffers pb ! buffer_idx p)) < time_value p" if "isRight p"
  proof -
    from isRight_end_point [OF wf ss(3) that]
    show "time_value p = upper (lifespan (buffers pb ! buffer_idx p))"
      by (metis start_end_fields(6))
    with pb(2) show "lower (lifespan (buffers pb ! buffer_idx p)) < time_value p"
      by (simp add: well_formed_buffer_def)
  qed
  have fresh: "last_section_idx s < ?n'" if A
  proof -
    from that have c: "closes p" and m: "buffer_idx_to_section_start s ! buffer_idx p \<noteq> - 1"
      and e: "alive s' = []"
      by (simp_all add: A_def)
    from alive_at_close [OF wf sp a pd o c m] have i: "buffer_idx p \<in> set (alive s)" .
    then have ne: "alive s \<noteq> []" by auto
    from e left have nl: "\<not> isLeft p" by auto
    from e ne other nl have r: "isRight p" by auto
    with al nl e have "set (alive s) - {buffer_idx p} = {}"
      by (simp add: set_btree_erase_idx [symmetric])
    then have only: "j = buffer_idx p" if "j \<in> set (alive s)" for j using that by auto
    from cv ne consider "last_section_idx s < ?n"
      | j where "j \<in> set (alive s)" "last_section_time s \<le> lower (lifespan (buffers pb ! j))"
      by (auto simp: cover_inv_def)
    then show ?thesis
    proof cases
      case 1
      with nn show ?thesis by simp
    next
      case 2
      with only up(2) [OF r] l1 [OF ne] have "?l1 < time_value p" by auto
      with c sec have "?n' = ?n + 1" by simp
      with kn show ?thesis by simp
    qed
  qed
  have d: "if alive s' = [] then ranges_cover 0 ?R' (last_section_idx s')
      else partitions s' \<noteq> [] \<and> ranges_cover 0 (butlast ?R') (last_section_idx s')"
  proof (cases A)
    case True
    then have c: "closes p" and m: "buffer_idx_to_section_start s ! buffer_idx p \<noteq> - 1"
      and e: "alive s' = []"
      by (simp_all add: A_def)
    from alive_at_close [OF wf sp a pd o c m] have "alive s \<noteq> []" by auto
    with cv have ne: "partitions s \<noteq> []"
      and rc: "ranges_cover 0 (butlast ?R) (last_section_idx s)"
      by (simp_all add: cover_inv_def)
    from ne have "?R[length (partitions s) - 1 := Interval (last_section_idx s) ?n'] =
        butlast ?R @ [Interval (last_section_idx s) ?n']"
      using update_last_conv [of ?R] by simp
    with pr(1) True have "?R' = butlast ?R @ [Interval (last_section_idx s) ?n']" by simp
    moreover from pr(2) True have "last_section_idx s' = ?n'" by simp
    ultimately show ?thesis
      using e rc fresh [OF True] by (simp add: ranges_cover_append)
  next
    case False
    with pr(2) have k: "last_section_idx s' = last_section_idx s" by simp
    show ?thesis
    proof (cases "(isLeft p \<or> isEmptyLeftGap p) \<and> alive s = []")
      case True
      with gap_end have l: "isLeft p" and e: "alive s = []" by auto
      from pr(1) False True have r: "?R' = ?R @ [Interval 0 0]" by simp
      then have "partitions s' \<noteq> []" by auto
      moreover from cv e have "ranges_cover 0 ?R (last_section_idx s)"
        by (simp add: cover_inv_def)
      ultimately show ?thesis using left [OF l] k r by simp
    next
      case n: False
      with pr(1) False have r: "?R' = ?R" by simp
      then have "length (partitions s') = length (partitions s)"
        by (metis length_map)
      then have ne: "partitions s' = [] \<longleftrightarrow> partitions s = []" by auto
      have "alive s' = [] \<longleftrightarrow> alive s = []"
      proof (cases "isLeft p")
        case True
        with n left [OF True] show ?thesis by simp
      next
        case nl: False
        show ?thesis
        proof (cases "isRight p")
          case True
          with right False show ?thesis by auto
        next
          case False
          with other nl show ?thesis by simp
        qed
      qed
      with cv k r ne show ?thesis by (simp add: cover_inv_def)
    qed
  qed
  have e: "last_section_idx s' = ?n' \<or> alive s' \<noteq> [] \<or>
      (\<exists>l \<in> set (sweep_points pb). l \<notin> set (pre @ [p]) \<and> isLeft l)"
  proof (cases "A \<or> alive s' \<noteq> []")
    case True
    with pr(2) show ?thesis by auto
  next
    case False
    then have nA: "\<not> A" and e': "alive s' = []" by simp_all
    from pr(2) nA have k: "last_section_idx s' = last_section_idx s" by simp
    from left e' have nl: "\<not> isLeft p" by auto
    from right e' nA have nr: "\<not> isRight p" by auto
    from other [OF nl nr] e' have e: "alive s = []" by simp
    show ?thesis
    proof (cases "\<exists>l \<in> set (sweep_points pb). l \<notin> set (pre @ [p]) \<and> isLeft l")
      case True
      then show ?thesis by simp
    next
      case none: False
      with nl have none': "\<not> (\<exists>l \<in> set (sweep_points pb). l \<notin> set pre \<and> isLeft l)"
        by auto
      with cv e have kn': "last_section_idx s = ?n" by (simp add: cover_inv_def)
      have "isLeft (start_point pb (buffer_idx p))" by (simp add: isLeft_def)
      with none' start_end_points(1) [OF wf pb(1)]
      have "start_point pb (buffer_idx p) \<in> set pre" by blast
      with a e have en: "end_point pb (buffer_idx p) \<in> set pre"
        by (auto simp: alive_inv_def)
      then have "pre \<noteq> []" by auto
      from step_time(4) [OF wf sp o this] have l1: "?l1 = last_section_time s" by simp
      have "closes (end_point pb (buffer_idx p))" by (simp add: closes_cases)
      with pd en have "time_value (end_point pb (buffer_idx p)) \<le> last_section_time s"
        unfolding pending_inv_def by blast
      with after_end_point(2) [OF wf sp en] have "time_value p \<le> last_section_time s"
        by simp
      with l1 sec have "sections s' = sections s" by simp
      with k kn' show ?thesis by simp
    qed
  qed
  have g: "last_section_idx s' < ?n' \<or>
      (\<exists>j \<in> set (alive s'). last_section_time s' \<le> lower (lifespan (buffers pb ! j)))"
    if ne': "alive s' \<noteq> []"
  proof (cases "closes p \<and> ?l1 < time_value p")
    case True
    with sec have "?n' = ?n + 1" by simp
    moreover from ne' pr(2) have "last_section_idx s' = last_section_idx s"
      by (simp add: A_def)
    ultimately show ?thesis using kn by simp
  next
    case False
    with sec lt have n': "sections s' = sections s" and t': "last_section_time s' = ?l1"
      by simp_all
    from ne' pr(2) have k: "last_section_idx s' = last_section_idx s"
      by (simp add: A_def)
    have sub: "set (alive s) - {buffer_idx p} \<subseteq> set (alive s')"
      using al by (auto simp: set_btree_insert_idx set_btree_erase_idx)
    show ?thesis
    proof (cases "alive s = []")
      case True
      with ne' other right have l: "isLeft p" by (cases "isRight p") auto
      from isLeft_start_point [OF wf ss(3) l]
      have "time_value p = lower (lifespan (buffers pb ! buffer_idx p))"
        by (metis start_end_fields(5))
      with step_time(2) [OF wf sp o] t'
      have "last_section_time s' \<le> lower (lifespan (buffers pb ! buffer_idx p))" by simp
      moreover from al l have "buffer_idx p \<in> set (alive s')"
        by (simp add: set_btree_insert_idx)
      ultimately show ?thesis by blast
    next
      case ne: False
      from cv ne consider "last_section_idx s < ?n"
        | j where "j \<in> set (alive s)" "last_section_time s \<le> lower (lifespan (buffers pb ! j))"
        by (auto simp: cover_inv_def)
      then show ?thesis
      proof cases
        case 1
        with k n' show ?thesis by simp
      next
        case 2
        have "j \<noteq> buffer_idx p \<or> \<not> isRight p"
        proof (rule ccontr)
          assume "\<not> (j \<noteq> buffer_idx p \<or> \<not> isRight p)"
          then have j: "j = buffer_idx p" and r: "isRight p" by simp_all
          from 2(2) j up(2) [OF r] l1 [OF ne] have "?l1 < time_value p" by simp
          with False closes_not_opening(2) [OF r] show False by simp
        qed
        then have "j \<in> set (alive s')"
        proof
          assume "j \<noteq> buffer_idx p"
          with sub 2(1) show ?thesis by auto
        next
          assume nr: "\<not> isRight p"
          show ?thesis
          proof (cases "isLeft p")
            case True
            with al 2(1) show ?thesis by (simp add: set_btree_insert_idx)
          next
            case False
            with other nr 2(1) show ?thesis by simp
          qed
        qed
        moreover from t' l1 [OF ne] 2(2)
        have "last_section_time s' \<le> lower (lifespan (buffers pb ! j))" by simp
        ultimately show ?thesis by blast
      qed
    qed
  qed
  from d e g show ?thesis by (simp add: cover_inv_def)
qed


lemma sweep_loop_cover:
  assumes wf: "well_formed pb" and early: "list_all resumes (buffers pb)"
    and sp: "sweep_points pb = pre @ rest"
    and b: "bounds_inv pb s" and sv: "spans_inv s" and o: "order_inv pb pre s"
    and a: "alive_inv pb pre s" and pd: "pending_inv pb pre s" and cv: "cover_inv pb pre s"
    and l: "sweep_loop es pb rest s = Some s'"
  shows "alive_inv pb (sweep_points pb) s' \<and> cover_inv pb (sweep_points pb) s'"
  using sp b sv o a pd cv l
proof (induction rest arbitrary: pre s)
  case Nil
  then show ?case by simp
next
  case (Cons p rest)
  from Cons.prems(8) obtain s1 where
    pp: "process_point es pb p s = Some s1" and l1: "sweep_loop es pb rest s1 = Some s'"
    by (auto split: option.splits)
  note sp = Cons.prems(1)
  note b1 = step_bounds [OF wf sp Cons.prems(2) pp]
  note v1 = spans_inv_process_point [OF Cons.prems(3) pp]
  note o1 = step_order [OF wf sp Cons.prems(2,3,4) pp]
  note a1 = step_alive [OF wf sp Cons.prems(5) pp]
  note p1 = step_pending [OF wf sp Cons.prems(4,6) pp]
  note c1 = step_cover [OF wf early sp Cons.prems(3,4,5,6,7) pp]
  from sp have "sweep_points pb = (pre @ [p]) @ rest" by simp
  from Cons.IH [OF this b1 v1 o1 a1 p1 c1 l1] show ?case .
qed

lemma initial_cover_invs:
  "alive_inv pb [] (initial_state pb)" "pending_inv pb [] (initial_state pb)"
  "cover_inv pb [] (initial_state pb)"
  by (simp_all add: alive_inv_def pending_inv_def cover_inv_def initial_state_def)

text \<open>
  For every well-formed problem in which every gap without window ends before its buffer
  does, \<open>Sweep\<close> returns a result in which the section ranges of the partitions are not
  empty and follow one another from 0 to the number of sections: they are pairwise
  disjoint, in increasing order, and their union is \<open>[0, sections.size())\<close>.
\<close>

lemma Sweep_partitions_cover:
  assumes wf: "well_formed pb" and early: "list_all resumes (buffers pb)"
  shows "\<exists>r. Sweep es pb = Some r \<and>
           ranges_cover 0 (map partition_range (partitions r)) (int (length (sections r)))"
proof -
  have sp: "sweep_points pb = [] @ sweep_points pb" by simp
  from sweep_loop_total [OF wf sp initial_invs(1) spans_inv_initial_state initial_invs(2)]
  obtain s where l: "sweep_loop es pb (sweep_points pb) (initial_state pb) = Some s"
    by blast
  from sweep_loop_cover [OF wf early sp initial_invs(1) spans_inv_initial_state
      initial_invs(2) initial_cover_invs l]
  have a: "alive_inv pb (sweep_points pb) s" and c: "cover_inv pb (sweep_points pb) s"
    by simp_all
  have "i \<notin> set (alive s)" for i
  proof
    assume "i \<in> set (alive s)"
    with a have st: "start_point pb i \<in> set (sweep_points pb)"
      and en: "end_point pb i \<notin> set (sweep_points pb)"
      by (simp_all add: alive_inv_def)
    from sweep_point_buffer(1) [OF wf st] have "i < length (buffers pb)" by simp
    from start_end_points(2) [OF wf this] en show False by simp
  qed
  then have e: "alive s = []" by (cases "alive s") auto
  with c have "ranges_cover 0 (map partition_range (partitions s)) (int (length (sections s)))"
    by (auto simp: cover_inv_def)
  with l show ?thesis by (simp add: Sweep_def result_of_def)
qed

text \<open>
  The buffer whose gap without window lasts to its end is the case that the lemma leaves
  out.
\<close>

lemma gap_until_end_no_resume: "\<not> list_all resumes (buffers gap_until_end)"
  by (simp add: gap_until_end_def resumes_def)

lemma two_overlapping_covered:
  "well_formed two_overlapping" "list_all resumes (buffers two_overlapping)"
  "map_option (\<lambda>r. ranges_cover 0 (map partition_range (partitions r))
                      (int (length (sections r)))) (Sweep es two_overlapping) = Some True"
proof -
  show wf: "well_formed two_overlapping"
    by (simp add: two_overlapping_def well_formed_def well_formed_buffer_def)
  show r: "list_all resumes (buffers two_overlapping)"
    by (simp add: two_overlapping_def resumes_def)
  from Sweep_partitions_cover [OF wf r, of es]
  show "map_option (\<lambda>r. ranges_cover 0 (map partition_range (partitions r))
                      (int (length (sections r)))) (Sweep es two_overlapping) = Some True"
    by auto
qed

section \<open>Adjacent windowed gaps\<close>

lemma sweep_loop_append:
  "sweep_loop es pb (xs @ ys) s =
     (case sweep_loop es pb xs s of None \<Rightarrow> None | Some s' \<Rightarrow> sweep_loop es pb ys s')"
  by (induction xs arbitrary: s) (simp_all split: option.splits)

text \<open>Spans are only ever appended.\<close>

lemma sweep_loop_spans_grow:
  assumes "sweep_loop es pb ps s = Some s'" and "i < length (buffer_data s)"
  shows "set (section_spans (buffer_data s ! i)) \<subseteq> set (section_spans (buffer_data s' ! i))"
  using assms
proof (induction ps arbitrary: s)
  case Nil
  then show ?case by simp
next
  case (Cons p ps)
  from Cons.prems(1) obtain s1 where
    pp: "process_point es pb p s = Some s1" and l: "sweep_loop es pb ps s1 = Some s'"
    by (auto split: option.splits)
  from process_point_spans [OF pp Cons.prems(2)]
  have "set (section_spans (buffer_data s ! i)) \<subseteq> set (section_spans (buffer_data s1 ! i))"
    by (auto split: if_splits)
  moreover from Cons.prems(2) have "i < length (buffer_data s1)"
    by (simp add: process_point_lengths [OF pp])
  from Cons.IH [OF l this]
  have "set (section_spans (buffer_data s1 ! i)) \<subseteq> set (section_spans (buffer_data s' ! i))" .
  ultimately show ?case by blast
qed

text \<open>
  Points at the recorded section time that belong to other buffers leave the number of
  sections and the open span of a buffer as they are.
\<close>

lemma sweep_loop_same_time:
  assumes "sweep_loop es pb ps s = Some s'"
    and "\<forall>m \<in> set ps. time_value m = t \<and> buffer_idx m \<noteq> i"
    and "t \<le> last_section_time s" and "0 \<le> t"
  shows "sections s' = sections s"
    and "buffer_idx_to_section_start s' ! i = buffer_idx_to_section_start s ! i"
    and "t \<le> last_section_time s'"
  using assms(1,2,3)
proof (induction ps arbitrary: s)
  case Nil
  {
    case 1 then show ?case by simp
  next
    case 2 then show ?case by simp
  next
    case 3 then show ?case by simp
  }
next
  case (Cons p ps)
  {
    case 1
    from 1(1) obtain s1 where
      pp: "process_point es pb p s = Some s1" and l: "sweep_loop es pb ps s1 = Some s'"
      by (auto split: option.splits)
    from 1(2) have p: "time_value p = t" "buffer_idx p \<noteq> i" by simp_all
    from 1(3) assms(4) p(1) have sec: "sections s1 = sections s"
      and lt: "last_section_time s1 = last_section_time s"
      by (simp_all add: process_point_sections [OF pp]
          process_point_last_section_time [OF pp] flushed)
    from Cons.IH(1) [OF l] 1(2,3) lt sec show ?case by simp
  next
    case 2
    from 2(1) obtain s1 where
      pp: "process_point es pb p s = Some s1" and l: "sweep_loop es pb ps s1 = Some s'"
      by (auto split: option.splits)
    from 2(2) have p: "time_value p = t" "buffer_idx p \<noteq> i" by simp_all
    from 2(3) assms(4) p(1) have lt: "last_section_time s1 = last_section_time s"
      by (simp_all add: process_point_last_section_time [OF pp] flushed)
    from p(2) have "buffer_idx_to_section_start s1 ! i = buffer_idx_to_section_start s ! i"
      by (simp add: process_point_start_nth(1) [OF pp])
    with Cons.IH(2) [OF l] 2(2,3) lt show ?case by simp
  next
    case 3
    from 3(1) obtain s1 where
      pp: "process_point es pb p s = Some s1" and l: "sweep_loop es pb ps s1 = Some s'"
      by (auto split: option.splits)
    from 3(2) have p: "time_value p = t" "buffer_idx p \<noteq> i" by simp_all
    from 3(3) assms(4) p(1) have lt: "last_section_time s1 = last_section_time s"
      by (simp_all add: process_point_last_section_time [OF pp] flushed)
    from Cons.IH(3) [OF l] 3(2,3) lt show ?case by simp
  }
qed


text \<open>
  Two windowed gaps of a buffer, the second beginning where the first ends: the start of
  the second is processed before the end of the first, and the span it opens is closed
  there with no section in between.
\<close>

lemma adjacent_windowed_gaps_empty_span:
  assumes wf: "well_formed pb" and i: "i < length (buffers pb)"
    and g: "g \<in> set (gaps (buffers pb ! i))" "gap_window g \<noteq> None"
    and h: "h \<in> set (gaps (buffers pb ! i))" "gap_window h \<noteq> None"
    and gh: "upper (gap_lifespan g) = lower (gap_lifespan h)"
  shows "\<exists>r. Sweep es pb = Some r \<and>
           (\<exists>a \<in> set (section_spans (buffer_data r ! i)).
              lower (section_range a) = upper (section_range a))"
proof -
  let ?b = "buffers pb ! i"
  let ?t = "lower (gap_lifespan h)"
  let ?P = "\<lparr>buffer_idx = i, time_value = lower (gap_lifespan h), point_type = kRightGap,
              window = gap_window h\<rparr>"
  let ?Q = "\<lparr>buffer_idx = i, time_value = upper (gap_lifespan g), point_type = kLeftGap,
              window = gap_window g\<rparr>"
  from wf i have wb: "well_formed_buffer ?b" by (simp add: well_formed_def list_all_length)
  from h(1) have Pb: "?P \<in> set (buffer_points i ?b)" unfolding in_buffer_points by blast
  from g(1) have Qb: "?Q \<in> set (buffer_points i ?b)" unfolding in_buffer_points by blast
  from Pb Qb i have Ps: "?P \<in> set (sweep_points pb)" and Qs: "?Q \<in> set (sweep_points pb)"
    by (simp_all add: set_sweep_points in_make_points)
  from buffer_point_facts(2) [OF wb Pb] have t0: "0 \<le> ?t" by simp
  from Qs obtain xs post where sq: "sweep_points pb = xs @ ?Q # post"
    by (auto simp: in_set_conv_decomp)
  have "event_le ?P ?Q \<and> ?P \<noteq> ?Q" using gh by (simp add: event_le_def event_tier_def)
  with in_pre_iff [OF wf sq Ps] have "?P \<in> set xs" by simp
  then obtain pre mid where xs: "xs = pre @ ?P # mid"
    by (auto simp: in_set_conv_decomp)
  from sq xs have sp: "sweep_points pb = pre @ ?P # (mid @ ?Q # post)" by simp
  from sq xs have sq': "sweep_points pb = (pre @ ?P # mid) @ ?Q # post" by simp
  note sP = split_sorted [OF sp wf]
  note sQ = split_sorted [OF sq' wf]
  have mid: "time_value m = ?t \<and> buffer_idx m \<noteq> i" if m: "m \<in> set mid" for m
  proof -
    from m sP(2) have Pm: "event_le ?P m" "m \<noteq> ?P" by auto
    from m sQ(1) have mQ: "event_le m ?Q" "m \<noteq> ?Q" by auto
    from Pm(1) mQ(1) gh have tm: "time_value m = ?t" by (auto simp: event_le_def)
    from m sq' have ms: "m \<in> set (sweep_points pb)" by simp
    have "buffer_idx m \<noteq> i"
    proof
      assume bi: "buffer_idx m = i"
      with sweep_point_buffer(3) [OF wf ms] have mb: "m \<in> set (buffer_points i ?b)" by simp
      show False
      proof (cases "point_type m")
        case kRightGap
        from same_gap_start [OF wb mb Pb kRightGap] tm Pm(2) show False by simp
      next
        case kLeftGap
        from same_gap_end [OF wb mb Qb kLeftGap] tm gh mQ(2) show False by simp
      next
        case kLeft
        from buffer_point_facts(5) [OF wb mb kLeft] tm
        have "?t = lower (lifespan ?b)" by (cases m) auto
        with buffer_point_facts(7) [OF wb Qb] gh show False by simp
      next
        case kRight
        from buffer_point_facts(6) [OF wb mb kRight] tm
        have "?t = upper (lifespan ?b)" by simp
        with buffer_point_facts(8) [OF wb Pb] show False by simp
      qed
    qed
    with tm show ?thesis by simp
  qed
  from Sweep_well_formed [OF wf, of es] obtain r where r: "Sweep es pb = Some r" by blast
  then obtain sf where
    l: "sweep_loop es pb (sweep_points pb) (initial_state pb) = Some sf"
    and rf: "r = result_of sf"
    by (auto simp: Sweep_def)
  from l obtain s1 s2 s3 s4 where
    l1: "sweep_loop es pb pre (initial_state pb) = Some s1"
    and pP: "process_point es pb ?P s1 = Some s2"
    and l3: "sweep_loop es pb mid s2 = Some s3"
    and pQ: "process_point es pb ?Q s3 = Some s4"
    and l5: "sweep_loop es pb post s4 = Some sf"
    unfolding sp by (auto simp: sweep_loop_append split: option.splits)
  have oP: "opens ?P" "closes ?P" using h(2) by (simp_all add: opens_cases closes_cases)
  have cQ: "closes ?Q" using g(2) by (simp add: closes_cases)
  from process_point_start_nth(2) [OF pP oP(1)]
  have st2: "buffer_idx_to_section_start s2 ! i = int (length (sections s2))" by simp
  have lt2: "?t \<le> last_section_time s2"
    using oP(2) by (simp add: process_point_last_section_time [OF pP] flushed)
  from mid have "\<forall>m \<in> set mid. time_value m = ?t \<and> buffer_idx m \<noteq> i" by blast
  note same = sweep_loop_same_time [OF l3 this lt2 t0]
  from same(1,2) st2 have st3: "buffer_idx_to_section_start s3 ! i = int (length (sections s3))"
    by simp
  from same(3) gh t0 have sec4: "sections s4 = sections s3"
    by (simp add: process_point_sections [OF pQ] flushed)
  from pQ have "in_bounds pb ?Q s3" by (rule process_point_SomeE)
  then have i3: "i < length (buffer_data s3)" by (simp add: in_bounds_def)
  from process_point_spans [OF pQ i3] cQ st3 sec4 obtain w where
    "section_spans (buffer_data s4 ! i) =
       section_spans (buffer_data s3 ! i) @
         [\<lparr>section_range = Interval (int (length (sections s3))) (int (length (sections s3))),
           span_window = w\<rparr>]"
    by auto
  then have "\<lparr>section_range = Interval (int (length (sections s3))) (int (length (sections s3))),
           span_window = w\<rparr> \<in> set (section_spans (buffer_data s4 ! i))"
    by simp
  moreover from i3 have "i < length (buffer_data s4)"
    by (simp add: process_point_lengths [OF pQ])
  from sweep_loop_spans_grow [OF l5 this]
  have "set (section_spans (buffer_data s4 ! i)) \<subseteq> set (section_spans (buffer_data sf ! i))" .
  ultimately have "\<lparr>section_range = Interval (int (length (sections s3)))
      (int (length (sections s3))), span_window = w\<rparr> \<in> set (section_spans (buffer_data r ! i))"
    by (auto simp: rf result_of_def)
  then have "\<exists>a \<in> set (section_spans (buffer_data r ! i)).
      lower (section_range a) = upper (section_range a)"
    by force
  with r show ?thesis by blast
qed

text \<open>The buffer with the windowed gaps [3,5) and [5,7) is an instance.\<close>

lemma adjacent_gaps_general:
  "\<exists>r. Sweep es adjacent_gaps = Some r \<and>
     (\<exists>a \<in> set (section_spans (buffer_data r ! 0)).
        lower (section_range a) = upper (section_range a))"
proof -
  have wf: "well_formed adjacent_gaps"
    by (simp add: adjacent_gaps_def well_formed_def well_formed_buffer_def well_formed_gap_def)
  show ?thesis
    by (rule adjacent_windowed_gaps_empty_span
          [OF wf, where g = "\<lparr>gap_lifespan = Interval 3 5, gap_window = Some (Interval 0 2)\<rparr>"
             and h = "\<lparr>gap_lifespan = Interval 5 7, gap_window = Some (Interval 0 3)\<rparr>"])
       (simp_all add: adjacent_gaps_def)
qed

section \<open>The cut counts\<close>

lemma unat_cuts_size:
  "sections r \<noteq> [] \<Longrightarrow> length (sections r) < 2 ^ 64 \<Longrightarrow>
     unat (cuts_size r) = length (sections r) - 1"
  by (simp add: cuts_size_def unat_minus_one of_nat_neq_0 unat_of_nat)

lemma count_cuts_spec:
  "lo < int_max \<Longrightarrow> up \<le> int_max \<Longrightarrow>
   (if lo + 1 < up then 0 \<le> lo \<and> up \<le> int (length cuts) + 1 else True) \<Longrightarrow>
   (\<forall>i < length cuts. lo \<le> int i \<longrightarrow> cuts ! i < int_max) \<Longrightarrow>
   \<exists>cuts'. count_cuts lo up cuts = Some cuts' \<and> length cuts' = length cuts \<and>
     (\<forall>i < length cuts. cuts' ! i = cuts ! i + (if lo \<le> int i \<and> int i + 1 < up then 1 else 0))"
proof (induction lo up cuts rule: count_cuts.induct)
  case (1 s_idx up cuts)
  from "1.prems"(1) have no: "\<not> int_max < s_idx + 1" by simp
  show ?case
  proof (cases "s_idx + 1 < up")
    case False
    with no show ?thesis by (simp add: count_cuts.simps [of s_idx up cuts])
  next
    case True
    with "1.prems"(3) have b: "0 \<le> s_idx" "up \<le> int (length cuts) + 1" by simp_all
    with True have inb: "0 \<le> s_idx \<and> nat s_idx < length cuts" by auto
    with "1.prems"(4) have "cuts ! nat s_idx < int_max" by simp
    then have fit: "\<not> int_max < cuts ! nat s_idx + 1" by simp
    let ?c = "cuts[nat s_idx := cuts ! nat s_idx + 1]"
    from True "1.prems"(2) have next_lo: "s_idx + 1 < int_max" by simp
    have rng: "if s_idx + 1 + 1 < up then 0 \<le> s_idx + 1 \<and> up \<le> int (length ?c) + 1 else True"
      using b by simp
    have low: "\<forall>i < length ?c. s_idx + 1 \<le> int i \<longrightarrow> ?c ! i < int_max"
    proof (intro allI impI)
      fix i
      assume i: "i < length ?c" "s_idx + 1 \<le> int i"
      with inb have "i \<noteq> nat s_idx" by auto
      then have "?c ! i = cuts ! i" by simp
      with i "1.prems"(4) show "?c ! i < int_max" by simp
    qed
    from "1.IH" [OF no True inb fit next_lo "1.prems"(2) rng low] obtain cuts' where
      r: "count_cuts (s_idx + 1) up ?c = Some cuts'" and l: "length cuts' = length ?c"
      and v: "\<forall>i < length ?c. cuts' ! i = ?c ! i + (if s_idx + 1 \<le> int i \<and> int i + 1 < up then 1 else 0)"
      by blast
    have "count_cuts s_idx up cuts = Some cuts'"
      using True inb no fit r by (simp add: count_cuts.simps [of s_idx up cuts])
    moreover have "cuts' ! i = cuts ! i + (if s_idx \<le> int i \<and> int i + 1 < up then 1 else 0)"
      if "i < length cuts" for i
    proof (cases "i = nat s_idx")
      case True
      with v that inb \<open>s_idx + 1 < up\<close> show ?thesis by simp
    next
      case False
      with v that inb show ?thesis by (auto simp: nth_list_update)
    qed
    ultimately show ?thesis using l by simp
  qed
qed

lemma cuts_loop_spec:
  "list_all (cuts_in_range (length cuts + 1)) bds \<Longrightarrow>
   (\<forall>i < length cuts. cuts ! i + int (length bds) \<le> int_max) \<Longrightarrow>
   \<exists>cuts'. cuts_loop bds cuts = Some cuts' \<and> length cuts' = length cuts \<and>
     (\<forall>i < length cuts. cuts' ! i = cuts ! i + int (length (filter (crosses (int i)) bds)))"
proof (induction bds arbitrary: cuts)
  case Nil
  then show ?case by simp
next
  case (Cons bd bds)
  let ?lo = "lower (section_range (hd (section_spans bd)))"
  let ?up = "upper (section_range (last (section_spans bd)))"
  from Cons.prems(1) have first: "cuts_in_range (length cuts + 1) bd"
    and rest: "list_all (cuts_in_range (length cuts + 1)) bds"
    by simp_all
  from first have ne: "section_spans bd \<noteq> []"
    and lo: "?lo < int_max" and up: "?up \<le> int_max"
    and rng: "if ?lo + 1 < ?up then 0 \<le> ?lo \<and> ?up \<le> int (length cuts) + 1 else True"
    by (simp_all add: cuts_in_range_def is_int_def split: if_splits)
  from Cons.prems(2) have fit: "\<forall>i < length cuts. ?lo \<le> int i \<longrightarrow> cuts ! i < int_max"
    by fastforce
  from count_cuts_spec [OF lo up rng fit] obtain c1 where
    c1: "count_cuts ?lo ?up cuts = Some c1" and l1: "length c1 = length cuts"
    and v1: "\<forall>i < length cuts. c1 ! i = cuts ! i + (if ?lo \<le> int i \<and> int i + 1 < ?up then 1 else 0)"
    by blast
  from rest l1 have r1: "list_all (cuts_in_range (length c1 + 1)) bds" by simp
  have f1: "\<forall>i < length c1. c1 ! i + int (length bds) \<le> int_max"
  proof (intro allI impI)
    fix i
    assume "i < length c1"
    with l1 v1 Cons.prems(2) have "c1 ! i \<le> cuts ! i + 1"
      and "cuts ! i + int (length (bd # bds)) \<le> int_max"
      by simp_all
    then show "c1 ! i + int (length bds) \<le> int_max" by simp
  qed
  from Cons.IH [OF r1 f1] obtain c2 where
    c2: "cuts_loop bds c1 = Some c2" and l2: "length c2 = length c1"
    and v2: "\<forall>i < length c1. c2 ! i = c1 ! i + int (length (filter (crosses (int i)) bds))"
    by blast
  have "cuts_loop (bd # bds) cuts = Some c2"
    using ne c1 c2 by simp
  moreover have "c2 ! i = cuts ! i + int (length (filter (crosses (int i)) (bd # bds)))"
    if "i < length cuts" for i
    using that v1 v2 l1 by (simp add: crosses_def)
  ultimately show ?case using l1 l2 by simp
qed


text \<open>
  C9, as the code has it. Take a result with at least one section, whose boundaries a
  vector can count (\<open>vector_max_size\<close>), with no more than \<^verbatim>\<open>INT_MAX\<close> buffers, in which
  every buffer has a span, the lower bound of its first span is below \<^verbatim>\<open>INT_MAX\<close>, and the
  boundaries it crosses are boundaries of the sections (\<open>cuts_in_range\<close>). For it
  \<open>CalculateCuts\<close> returns one counter per boundary between adjacent sections, and counter
  \<open>i\<close> is the number of buffers whose first span begins at or before \<open>i\<close> and whose last
  span ends after \<open>i + 1\<close>; the spans in between play no role.
\<close>

theorem CalculateCuts_counts:
  assumes "sections r \<noteq> []" and "length (sections r) - 1 \<le> vector_max_size"
    and "int (length (buffer_data r)) \<le> int_max"
    and "list_all (cuts_in_range (length (sections r))) (buffer_data r)"
  shows "\<exists>cuts. CalculateCuts r = Some cuts \<and>
           length cuts = length (sections r) - 1 \<and>
           (\<forall>i < length (sections r) - 1.
              cuts ! i = int (length (filter (crosses (int i)) (buffer_data r))))"
proof -
  let ?n = "length (sections r)"
  from assms(2) have "?n < 2 ^ 64" by (simp add: vector_max_size_def)
  with assms(1) have sz: "unat (cuts_size r) = ?n - 1" by (rule unat_cuts_size)
  with assms(2) have nv: "new_vector (cuts_size r) = Inr (replicate (?n - 1) 0)"
    by (simp add: new_vector_def)
  from assms(1) have "length (replicate (?n - 1) (0::int)) + 1 = ?n"
    by (cases "sections r") simp_all
  with assms(4)
  have a: "list_all (cuts_in_range (length (replicate (?n - 1) (0::int)) + 1)) (buffer_data r)"
    by simp
  from assms(3)
  have b: "\<forall>i < length (replicate (?n - 1) (0::int)).
      replicate (?n - 1) (0::int) ! i + int (length (buffer_data r)) \<le> int_max"
    by simp
  from cuts_loop_spec [OF a b] show ?thesis
    by (auto simp: CalculateCuts_def nv)
qed

theorem CalculateCuts_counts_witness:
  "CalculateCuts
     \<lparr>sections = [[0, 1], [1]],
      partitions = [\<lparr>buffer_idxs = [0, 1], partition_range = Interval 0 2\<rparr>],
      buffer_data =
        [\<lparr>section_spans = [\<lparr>section_range = Interval 0 1, span_window = Interval 0 4\<rparr>],
          overlaps = []\<rparr>,
         \<lparr>section_spans = [\<lparr>section_range = Interval 0 2, span_window = Interval 0 4\<rparr>],
          overlaps = []\<rparr>]\<rparr> = Some [1]"
proof -
  let ?r = "\<lparr>sections = [[0, 1], [1]],
      partitions = [\<lparr>buffer_idxs = [0, 1], partition_range = Interval 0 2\<rparr>],
      buffer_data =
        [\<lparr>section_spans = [\<lparr>section_range = Interval 0 1, span_window = Interval 0 4\<rparr>],
          overlaps = []\<rparr>,
         \<lparr>section_spans = [\<lparr>section_range = Interval 0 2, span_window = Interval 0 4\<rparr>],
          overlaps = []\<rparr>]\<rparr>"
  have a: "sections ?r \<noteq> []" by simp
  have b: "length (sections ?r) - 1 \<le> vector_max_size" by (simp add: vector_max_size_def)
  have c: "int (length (buffer_data ?r)) \<le> int_max" by (simp add: int_max_def)
  have d: "list_all (cuts_in_range (length (sections ?r))) (buffer_data ?r)"
    by (simp add: cuts_in_range_def is_int_def int_min_def int_max_def)
  from CalculateCuts_counts [OF a b c d] obtain cuts where
    r: "CalculateCuts ?r = Some cuts" and l: "length cuts = 1"
    and v: "cuts ! 0 = int (length (filter (crosses 0) (buffer_data ?r)))"
    by auto
  from v have "cuts ! 0 = 1" by (simp add: crosses_def)
  with l have "cuts = [1]" by (cases cuts) simp_all
  with r show ?thesis by simp
qed

text \<open>
  C9 as stated fails for a result whose span leaves the sections: with one section and the
  span [0,3) the loop increments \<^verbatim>\<open>cuts[0]\<close> of a vector without elements.
\<close>

theorem span_beyond_sections_undefined:
  "sections span_beyond_sections \<noteq> [] \<and>
   list_all (\<lambda>bd. section_spans bd \<noteq> []) (buffer_data span_beyond_sections) \<and>
   CalculateCuts span_beyond_sections = None"
  by (simp add: span_beyond_sections_def cuts_eval)

text \<open>
  It fails as well for the empty span at \<^verbatim>\<open>INT_MAX\<close>, which crosses no boundary: the
  condition of the loop adds 1 to \<^verbatim>\<open>INT_MAX\<close>. The vector had been created, without
  elements.
\<close>

lemma span_at_int_max_undefined:
  "sections span_at_int_max \<noteq> []"
  "list_all (\<lambda>bd. section_spans bd \<noteq> []) (buffer_data span_at_int_max)"
  "new_vector (cuts_size span_at_int_max) = Inr []"
  "CalculateCuts span_at_int_max = None"
  "\<not> list_all (cuts_in_range (length (sections span_at_int_max))) (buffer_data span_at_int_max)"
  by (simp_all add: span_at_int_max_def cuts_eval cuts_in_range_def)

section \<open>The size of the cut vector\<close>

lemma cuts_size_no_sections:
  "sections r = [] \<Longrightarrow> unat (cuts_size r) = 18446744073709551615"
  by (simp add: cuts_size_def unsigned_minus_1_eq_mask mask_eq_exp_minus_1)

text \<open>
  C10, as the code has it. When there is no section, \<^verbatim>\<open>sections.size() - 1\<close> wraps around
  to \<open>2^64 - 1\<close>, not 0. This is the number of counters asked of the constructor, which is
  more than a vector can hold: the constructor throws \<^verbatim>\<open>std::length_error\<close>, and
  \<open>CalculateCuts\<close> returns no vector.
\<close>

theorem CalculateCuts_no_sections:
  "sections r = [] \<Longrightarrow>
     unat (cuts_size r) = 18446744073709551615 \<and>
     new_vector (cuts_size r) = Inl length_error \<and>
     CalculateCuts r = None"
proof -
  assume "sections r = []"
  then have sz: "unat (cuts_size r) = 18446744073709551615"
    by (rule cuts_size_no_sections)
  then have "new_vector (cuts_size r) = Inl length_error"
    by (simp add: new_vector_def vector_max_size_def)
  with sz show ?thesis by (simp add: CalculateCuts_def)
qed

theorem CalculateCuts_no_sections_witness:
  "Sweep no_conflict empty_problem =
     Some \<lparr>sections = [], partitions = [], buffer_data = []\<rparr> \<and>
   unat (cuts_size \<lparr>sections = [], partitions = [], buffer_data = []\<rparr>) = 18446744073709551615 \<and>
   new_vector (cuts_size \<lparr>sections = [], partitions = [], buffer_data = []\<rparr>) =
     Inl length_error \<and>
   CalculateCuts \<lparr>sections = [], partitions = [], buffer_data = []\<rparr> = None"
  using CalculateCuts_no_sections
    [of "\<lparr>sections = [], partitions = [], buffer_data = []\<rparr>"]
  by (simp add: Sweep_empty_problem)

text \<open>
  C10 as stated fails: for the result of the sweep of no buffers, which has no section,
  \<open>CalculateCuts\<close> returns no vector, of \<open>2^64 - 1\<close> counters or of any other length.
\<close>

theorem no_sections_no_vector:
  "Sweep no_conflict empty_problem \<noteq> None \<and>
   sections (the (Sweep no_conflict empty_problem)) = [] \<and>
   (\<forall>cuts. CalculateCuts (the (Sweep no_conflict empty_problem)) \<noteq> Some cuts)"
  by (simp add: Sweep_empty_problem cuts_eval unsigned_minus_1_eq_mask mask_eq_exp_minus_1)

end
